theory Spec2Isabelle
  imports Main "HOL-Library.Word"
begin

unbundle bit_operations_syntax

section \<open>Scalar types, errors and the filter objects\<close>

text \<open>
  \<open>int64_t\<close> values are 64-bit words read as two's complement: the comparisons of the
  source on \<open>int64_t\<close> are the signed ones (\<open><s\<close>, \<open><=s\<close>), its arithmetic wraps.
  \<open>size_t\<close> and \<open>uint64_t\<close> are 64-bit words read unsigned. Vector lengths and indices
  are natural numbers.
\<close>

type_synonym int64 = "64 word"
type_synonym uint64 = "64 word"

text \<open>
  A failed \<open>VELOX_CHECK\<close> (with its message), \<open>VELOX_UNREACHABLE()\<close>, and the places where
  the C++ has no defined behaviour (an index outside a vector, a loop counter that
  overflows, a shift by the width of the type) are three of the ways a call does not
  return; the fourth is the \<open>std::length_error\<close> that \<open>std::vector::reserve\<close> throws.
\<close>

datatype velox_error =
    CheckFailed string
  | Unreachable
  | Undefined string
  | LengthError

text \<open>
  \<open>class BigintRange\<close>: the closed interval \<open>[lower_, upper_]\<close> and the null flag. (The
  constructor is \<open>BRange\<close>: \<open>Range\<close> is a constant of HOL.)
\<close>

datatype bigint_range =
  BRange (lower: int64) (upper: int64) (rangeNullAllowed: bool)

text \<open>
  The filter classes, one constructor per \<open>FilterKind\<close> of the integer, boolean and
  null-test filters. \<open>deterministic_\<close> is \<open>true\<close> in every class of the source and is
  left out; \<open>kind_\<close> is the constructor. The members keep their names without the trailing
  underscore (\<open>min_\<close> and \<open>max_\<close> are \<open>valuesMin\<close> and \<open>valuesMax\<close>).
\<close>

datatype filter =
    AlwaysFalse
  | AlwaysTrue
  | IsNull
  | IsNotNull
  | BoolValue (boolValue: bool) (nullAllowed: bool)
  | BigintRange (theRange: bigint_range)
  | BigintValuesUsingHashTable (valuesMin: int64) (valuesMax: int64) (hashTable: "int64 list")
      (containsEmptyMarker: bool) (nullAllowed: bool)
  | BigintValuesUsingBitmask (valuesMin: int64) (valuesMax: int64) (bitmask: "bool list")
      (nullAllowed: bool)
  | BigintMultiRange (ranges: "bigint_range list") (lowerBounds: "int64 list")
      (nullAllowed: bool)

text \<open>\<open>std::max\<close> and \<open>std::min\<close> on \<open>int64_t\<close>, as the standard library defines them.\<close>

definition smax :: "int64 \<Rightarrow> int64 \<Rightarrow> int64" where
  "smax a b = (if a <s b then b else a)"

definition smin :: "int64 \<Rightarrow> int64 \<Rightarrow> int64" where
  "smin a b = (if b <s a then b else a)"

text \<open>\<open>Filter::testNull\<close>: the null flag; the four constant classes fix it in their constructors.\<close>

fun testNull :: "filter \<Rightarrow> bool" where
  "testNull AlwaysFalse = False"
| "testNull AlwaysTrue = True"
| "testNull IsNull = True"
| "testNull IsNotNull = False"
| "testNull (BoolValue v n) = n"
| "testNull (BigintRange r) = rangeNullAllowed r"
| "testNull (BigintValuesUsingHashTable mn mx t c n) = n"
| "testNull (BigintValuesUsingBitmask mn mx b n) = n"
| "testNull (BigintMultiRange rs lbs n) = n"

text \<open>\<open>nullOrFalse\<close> (Filter.cpp, anonymous namespace).\<close>

definition nullOrFalse :: "bool \<Rightarrow> filter" where
  "nullOrFalse na = (if na then IsNull else AlwaysFalse)"

section \<open>The value-set constructors\<close>

subsection \<open>BigintValuesUsingBitmask\<close>

text \<open>
  The loop \<open>for (int64_t value : values) bitmask_[value - min] = true\<close>. An index outside
  the vector is undefined in C++; the model stops there.
\<close>

fun setBits :: "bool list \<Rightarrow> int64 \<Rightarrow> int64 list \<Rightarrow> velox_error + bool list" where
  "setBits bm mn [] = Inr bm"
| "setBits bm mn (v # vs) =
     (let i = unat (v - mn) in
      if i < length bm then setBits (bm[i := True]) mn vs
      else Inl (Undefined ''bitmask_ index out of range''))"

text \<open>
  The constructor \<open>BigintValuesUsingBitmask(min, max, values, nullAllowed)\<close>:
  \<open>bitmask_.resize(max - min + 1)\<close> converts the \<open>int64_t\<close> to \<open>size_t\<close>.
\<close>

definition BigintValuesUsingBitmask_ctor ::
  "int64 \<Rightarrow> int64 \<Rightarrow> int64 list \<Rightarrow> bool \<Rightarrow> velox_error + filter" where
  "BigintValuesUsingBitmask_ctor mn mx values na =
     (if \<not> mn <s mx then Inl (CheckFailed ''min must be less than max'')
      else if \<not> 1 < length values then Inl (CheckFailed ''values must contain at least 2 entries'')
      else case setBits (replicate (unat (mx - mn + 1)) False) mn values of
             Inl e \<Rightarrow> Inl e
           | Inr bm \<Rightarrow> Inr (BigintValuesUsingBitmask mn mx bm na))"

subsection \<open>BigintValuesUsingHashTable\<close>

text \<open>
  \<open>(uint32_t)std::log2(x)\<close> for a positive \<open>size_t\<close> \<open>x\<close>: the integer part of the binary
  logarithm. (The source computes it in \<open>double\<close>; for the arguments below \<open>2^31\<close> that the
  constructor can use, the conversion is exact and the rounding of \<open>log2\<close> cannot reach the
  next integer.)
\<close>

fun floorLog2 :: "nat \<Rightarrow> nat" where
  "floorLog2 n = (if n < 2 then 0 else Suc (floorLog2 (n div 2)))"

declare floorLog2.simps [simp del]

text \<open>
  The insertion probe of the constructor:
  \<open>for (auto i = position; i < position + size; i++) { index = i & (size - 1);
  if (hashTable_[index] == kEmptyMarker) { hashTable_[index] = value; break; } }\<close>.
  \<open>None\<close> is the loop running to its end without finding an empty slot (the source then
  leaves the table as it is). The loop counter is passed as the number \<open>n\<close> of iterations
  that remain.
\<close>

fun insertProbe :: "int64 \<Rightarrow> int64 list \<Rightarrow> nat \<Rightarrow> int64 \<Rightarrow> nat \<Rightarrow> nat \<Rightarrow> int64 list option" where
  "insertProbe kEmptyMarker tbl sz v i 0 = None"
| "insertProbe kEmptyMarker tbl sz v i (Suc n) =
     (let index = i AND (sz - 1) in
      if tbl ! index = kEmptyMarker then Some (tbl[index := v])
      else insertProbe kEmptyMarker tbl sz v (i + 1) n)"

text \<open>\<open>(value * M) & (size - 1)\<close>, computed in \<open>uint64_t\<close>.\<close>

definition hashPosition :: "uint64 \<Rightarrow> nat \<Rightarrow> int64 \<Rightarrow> nat" where
  "hashPosition M sz v = unat ((v * M) AND of_nat (sz - 1))"

text \<open>
  The body of \<open>for (auto value : values)\<close> in the constructor, on the pair
  \<open>(hashTable_, containsEmptyMarker_)\<close>.
\<close>

definition insertValue ::
  "int64 \<Rightarrow> uint64 \<Rightarrow> nat \<Rightarrow> int64 list \<times> bool \<Rightarrow> int64 \<Rightarrow> int64 list \<times> bool" where
  "insertValue kEmptyMarker M sz st v =
     (if v = kEmptyMarker then (fst st, True)
      else case insertProbe kEmptyMarker (fst st) sz v (hashPosition M sz v) sz of
             None \<Rightarrow> st
           | Some tbl \<Rightarrow> (tbl, snd st))"

fun insertAll ::
  "int64 \<Rightarrow> uint64 \<Rightarrow> nat \<Rightarrow> int64 list \<times> bool \<Rightarrow> int64 list \<Rightarrow> int64 list \<times> bool" where
  "insertAll kEmptyMarker M sz st [] = st"
| "insertAll kEmptyMarker M sz st (v # vs) =
     insertAll kEmptyMarker M sz (insertValue kEmptyMarker M sz st v) vs"

text \<open>
  Whether every insertion probe of the constructor's loop ends at an empty slot, that is,
  whether no value is dropped: the same loop as \<open>insertAll\<close>, observing each probe.
\<close>

fun insertsFindSlot ::
  "int64 \<Rightarrow> uint64 \<Rightarrow> nat \<Rightarrow> int64 list \<times> bool \<Rightarrow> int64 list \<Rightarrow> bool" where
  "insertsFindSlot kEmptyMarker M sz st [] = True"
| "insertsFindSlot kEmptyMarker M sz st (v # vs) =
     ((v = kEmptyMarker \<or>
       insertProbe kEmptyMarker (fst st) sz v (hashPosition M sz v) sz \<noteq> None) \<and>
      insertsFindSlot kEmptyMarker M sz (insertValue kEmptyMarker M sz st v) vs)"

text \<open>
  \<open>auto size = 1u << (uint32_t)std::log2(values.size() * 3)\<close>, an \<open>unsigned int\<close>.
  The fill loop \<open>for (auto i = 0; i < size; ++i)\<close> counts in \<open>int\<close>, so a size of \<open>2^31\<close>
  or a shift by 32 or more has no defined behaviour.
\<close>

definition tableSize :: "nat \<Rightarrow> nat" where
  "tableSize n = 2 ^ floorLog2 (n * 3)"

text \<open>
  The constructor \<open>BigintValuesUsingHashTable(min, max, values, nullAllowed)\<close>.
  \<open>kEmptyMarker\<close> and the multiplier \<open>M\<close> are constants of the class declared in Filter.h;
  they are parameters here.
\<close>

definition BigintValuesUsingHashTable_ctor ::
  "int64 \<Rightarrow> uint64 \<Rightarrow> int64 \<Rightarrow> int64 \<Rightarrow> int64 list \<Rightarrow> bool \<Rightarrow> velox_error + filter" where
  "BigintValuesUsingHashTable_ctor kEmptyMarker M mn mx values na =
     (if \<not> mn <s mx then Inl (CheckFailed ''min must be less than max'')
      else if \<not> 1 < length values then Inl (CheckFailed ''values must contain at least 2 entries'')
      else if 31 \<le> floorLog2 (length values * 3) then Inl (Undefined ''table size'')
      else let sz = tableSize (length values);
               st = insertAll kEmptyMarker M sz (replicate sz kEmptyMarker, False) values
           in Inr (BigintValuesUsingHashTable mn mx (fst st) (snd st) na))"

section \<open>The factory createBigintValues\<close>

text \<open>
  The loop that finds the extremes:
  \<open>if (values[i] > max) max = values[i]; else if (values[i] < min) min = values[i];\<close>
  Its counter is an \<open>int\<close>, which counts vectors of fewer than \<open>2^31\<close> values; the function
  below runs over the whole vector.
\<close>

fun minMax :: "int64 \<Rightarrow> int64 \<Rightarrow> int64 list \<Rightarrow> int64 \<times> int64" where
  "minMax mn mx [] = (mn, mx)"
| "minMax mn mx (v # vs) =
     (if mx <s v then minMax mn v vs
      else if v <s mn then minMax v mx vs
      else minMax mn mx vs)"

text \<open>\<open>__builtin_sub_overflow(a, b, &r)\<close>: whether \<open>a - b\<close> leaves \<open>int64_t\<close>; \<open>r\<close> is the wrapped difference.\<close>

definition sub_overflow :: "int64 \<Rightarrow> int64 \<Rightarrow> bool" where
  "sub_overflow a b = (sint a - sint b < - (2 ^ 63) \<or> 2 ^ 63 \<le> sint a - sint b)"

text \<open>
  \<open>createBigintValues(values, nullAllowed)\<close>. \<open>range + 1 == values.size()\<close> and
  \<open>range < values.size() * 4 * 64\<close> compare an \<open>int64_t\<close> with a \<open>size_t\<close>, so both sides
  are read unsigned; \<open>range < 32 * 64\<close> is a signed comparison.
\<close>

definition createBigintValues ::
  "int64 \<Rightarrow> uint64 \<Rightarrow> int64 list \<Rightarrow> bool \<Rightarrow> velox_error + filter" where
  "createBigintValues kEmptyMarker M values na =
     (if values = [] then Inr (nullOrFalse na)
      else if length values = 1 then Inr (BigintRange (BRange (hd values) (hd values) na))
      else
        let mm = minMax (values ! 0) (values ! 0) (tl values);
            mn = fst mm; mx = snd mm;
            range = mx - mn
        in if \<not> sub_overflow mx mn then
             if range + 1 = of_nat (length values)
             then Inr (BigintRange (BRange mn mx na))
             else if range <s 32 * 64 \<or> range < of_nat (length values) * 4 * 64
             then BigintValuesUsingBitmask_ctor mn mx values na
             else BigintValuesUsingHashTable_ctor kEmptyMarker M mn mx values na
           else BigintValuesUsingHashTable_ctor kEmptyMarker M mn mx values na)"

section \<open>The scalar tests\<close>

text \<open>
  Modelled from the spec: \<open>BigintRange::testInt64\<close> is defined in Filter.h, which is not
  among the sources. The spec: "BigintRange.testInt64(v) -- lo \<le> v \<le> hi".
\<close>

definition BigintRange_testInt64 :: "bigint_range \<Rightarrow> int64 \<Rightarrow> bool" where
  "BigintRange_testInt64 r v = (lower r <=s v \<and> v <=s upper r)"

text \<open>\<open>BigintValuesUsingBitmask::testInt64\<close>.\<close>

definition Bitmask_testInt64 :: "filter \<Rightarrow> int64 \<Rightarrow> bool" where
  "Bitmask_testInt64 this v =
     (if v <s valuesMin this \<or> valuesMax this <s v then False
      else bitmask this ! unat (v - valuesMin this))"

text \<open>
  The probe of \<open>BigintValuesUsingHashTable::testInt64\<close>: the loop has three exits, an empty
  slot (\<open>return false\<close>), a hit (\<open>return true\<close>) and its end after \<open>size\<close> slots
  (the \<open>return false\<close> after the loop).
\<close>

datatype probe_result = Hit | EmptySlot | Exhausted

fun lookupProbe :: "int64 \<Rightarrow> int64 list \<Rightarrow> nat \<Rightarrow> int64 \<Rightarrow> nat \<Rightarrow> nat \<Rightarrow> probe_result" where
  "lookupProbe kEmptyMarker tbl sz v i 0 = Exhausted"
| "lookupProbe kEmptyMarker tbl sz v i (Suc n) =
     (let idx = i AND (sz - 1); l = tbl ! idx in
      if l = kEmptyMarker then EmptySlot
      else if l = v then Hit
      else lookupProbe kEmptyMarker tbl sz v (i + 1) n)"

definition HashTable_testInt64 :: "int64 \<Rightarrow> uint64 \<Rightarrow> filter \<Rightarrow> int64 \<Rightarrow> bool" where
  "HashTable_testInt64 kEmptyMarker M this v =
     (if containsEmptyMarker this \<and> v = kEmptyMarker then True
      else if v <s valuesMin this \<or> valuesMax this <s v then False
      else let sz = length (hashTable this) in
           lookupProbe kEmptyMarker (hashTable this) sz v (hashPosition M sz v) sz = Hit)"

text \<open>
  \<open>std::lower_bound(values.begin(), values.end(), value)\<close> as the standard library runs
  it: the halving search on the index range of \<open>len\<close> elements that starts at \<open>first\<close>.
\<close>

function lower_bound :: "int64 list \<Rightarrow> nat \<Rightarrow> nat \<Rightarrow> int64 \<Rightarrow> nat" where
  "lower_bound vs first len v =
     (if len = 0 then first
      else if vs ! (first + len div 2) <s v
           then lower_bound vs (first + len div 2 + 1) (len - len div 2 - 1) v
           else lower_bound vs first (len div 2) v)"
  by pat_completeness auto
termination
  by (relation "measure (\<lambda>(vs, first, len, v). len)") auto

declare lower_bound.simps [simp del]

text \<open>\<open>binarySearch\<close> (Filter.cpp, anonymous namespace).\<close>

definition binarySearch :: "int64 list \<Rightarrow> int64 \<Rightarrow> int" where
  "binarySearch vs v =
     (let it = lower_bound vs 0 (length vs) v in
      if it = length vs \<or> vs ! it \<noteq> v then - int it - 1 else int it)"

text \<open>\<open>BigintMultiRange::testInt64\<close>.\<close>

definition BigintMultiRange_testInt64 :: "filter \<Rightarrow> int64 \<Rightarrow> bool" where
  "BigintMultiRange_testInt64 this v =
     (let i = binarySearch (lowerBounds this) v in
      if 0 \<le> i then True
      else let place = (- i) - 1 in
           if place = 0 then False
           else BigintRange_testInt64 (ranges this ! nat (place - 1)) v)"

text \<open>
  The virtual \<open>testInt64\<close>. Modelled from the spec: the overrides of the constant, null-test
  and boolean classes are in Filter.h, which is not among the sources. The spec:
  AlwaysTrue and AlwaysFalse are constants, IsNull accepts only nulls, IsNotNull every value,
  and "variants that do not apply to a type return false".
\<close>

fun testInt64 :: "int64 \<Rightarrow> uint64 \<Rightarrow> filter \<Rightarrow> int64 \<Rightarrow> bool" where
  "testInt64 kEmptyMarker M AlwaysFalse v = False"
| "testInt64 kEmptyMarker M AlwaysTrue v = True"
| "testInt64 kEmptyMarker M IsNull v = False"
| "testInt64 kEmptyMarker M IsNotNull v = True"
| "testInt64 kEmptyMarker M (BoolValue b n) v = False"
| "testInt64 kEmptyMarker M (BigintRange r) v = BigintRange_testInt64 r v"
| "testInt64 kEmptyMarker M (BigintValuesUsingHashTable mn mx t c n) v =
     HashTable_testInt64 kEmptyMarker M (BigintValuesUsingHashTable mn mx t c n) v"
| "testInt64 kEmptyMarker M (BigintValuesUsingBitmask mn mx b n) v =
     Bitmask_testInt64 (BigintValuesUsingBitmask mn mx b n) v"
| "testInt64 kEmptyMarker M (BigintMultiRange rs lbs n) v =
     BigintMultiRange_testInt64 (BigintMultiRange rs lbs n) v"

section \<open>The range tests on integers\<close>

text \<open>
  Modelled from the spec: \<open>BigintRange::testInt64Range\<close> is defined in Filter.h, which is
  not among the sources. The spec: "If hasNull && nullAllowed, return true unconditionally
  ... otherwise the filter checks whether [min, max] intersects its acceptance region".
\<close>

definition BigintRange_testInt64Range :: "bigint_range \<Rightarrow> int64 \<Rightarrow> int64 \<Rightarrow> bool \<Rightarrow> bool" where
  "BigintRange_testInt64Range r mn mx hasNull =
     (if hasNull \<and> rangeNullAllowed r then True
      else \<not> (upper r <s mn \<or> mx <s lower r))"

text \<open>\<open>BigintValuesUsingBitmask::testInt64Range\<close>.\<close>

definition Bitmask_testInt64Range :: "filter \<Rightarrow> int64 \<Rightarrow> int64 \<Rightarrow> bool \<Rightarrow> bool" where
  "Bitmask_testInt64Range this mn mx hasNull =
     (if hasNull \<and> nullAllowed this then True
      else if mn = mx then Bitmask_testInt64 this mn
      else \<not> (valuesMax this <s mn \<or> mx <s valuesMin this))"

text \<open>\<open>BigintValuesUsingHashTable::testInt64Range\<close>.\<close>

definition HashTable_testInt64Range ::
  "int64 \<Rightarrow> uint64 \<Rightarrow> filter \<Rightarrow> int64 \<Rightarrow> int64 \<Rightarrow> bool \<Rightarrow> bool" where
  "HashTable_testInt64Range kEmptyMarker M this mn mx hasNull =
     (if hasNull \<and> nullAllowed this then True
      else if mn = mx then HashTable_testInt64 kEmptyMarker M this mn
      else \<not> (valuesMax this <s mn \<or> mx <s valuesMin this))"

text \<open>\<open>BigintMultiRange::testInt64Range\<close>: the loop over \<open>ranges_\<close>.\<close>

fun anyRange :: "bigint_range list \<Rightarrow> int64 \<Rightarrow> int64 \<Rightarrow> bool \<Rightarrow> bool" where
  "anyRange [] mn mx hasNull = False"
| "anyRange (r # rs) mn mx hasNull =
     (if BigintRange_testInt64Range r mn mx hasNull then True else anyRange rs mn mx hasNull)"

definition BigintMultiRange_testInt64Range :: "filter \<Rightarrow> int64 \<Rightarrow> int64 \<Rightarrow> bool \<Rightarrow> bool" where
  "BigintMultiRange_testInt64Range this mn mx hasNull =
     (if hasNull \<and> nullAllowed this then True else anyRange (ranges this) mn mx hasNull)"

section \<open>BigintMultiRange and combineBigintRanges\<close>

text \<open>
  The constructor \<open>BigintMultiRange(ranges, nullAllowed)\<close>: it fills \<open>lowerBounds_\<close> and
  checks \<open>lowerBounds_[i] >= ranges_[i - 1]->upper()\<close> for \<open>i = 1 .. size - 1\<close>.
\<close>

definition BigintMultiRange_ctor :: "bigint_range list \<Rightarrow> bool \<Rightarrow> velox_error + filter" where
  "BigintMultiRange_ctor rs na =
     (if rs = [] then Inl (CheckFailed ''ranges is empty'')
      else if \<not> 1 < length rs then Inl (CheckFailed ''should contain at least 2 ranges'')
      else let lbs = map lower rs in
           if list_all (\<lambda>i. upper (rs ! (i - 1)) <=s lbs ! i) [1..<length lbs]
           then Inr (BigintMultiRange rs lbs na)
           else Inl (CheckFailed ''bigint ranges must not overlap''))"

text \<open>\<open>combineBigintRanges\<close> (Filter.cpp, anonymous namespace).\<close>

definition combineBigintRanges :: "bigint_range list \<Rightarrow> bool \<Rightarrow> velox_error + filter" where
  "combineBigintRanges rs na =
     (if rs = [] then Inr (nullOrFalse na)
      else if length rs = 1 then Inr (BigintRange (BRange (lower (hd rs)) (upper (hd rs)) na))
      else BigintMultiRange_ctor rs na)"

section \<open>The intersection algebra mergeWith\<close>

text \<open>
  Modelled from the spec: \<open>AlwaysFalse::mergeWith\<close> and \<open>AlwaysTrue::mergeWith\<close> are
  defined in Filter.h, which is not among the sources. The spec: "AlwaysFalse \<and> x \<rightarrow>
  AlwaysFalse" and "AlwaysTrue \<and> x \<rightarrow> x (with null intersected)"; AlwaysTrue allows null,
  so the intersected null flag is that of \<open>x\<close>.
\<close>

definition AlwaysFalse_mergeWith :: "filter \<Rightarrow> velox_error + filter" where
  "AlwaysFalse_mergeWith other = Inr AlwaysFalse"

definition AlwaysTrue_mergeWith :: "filter \<Rightarrow> velox_error + filter" where
  "AlwaysTrue_mergeWith other = Inr other"

text \<open>\<open>IsNull::mergeWith\<close>; every filter here is deterministic, so its check passes.\<close>

definition IsNull_mergeWith :: "filter \<Rightarrow> velox_error + filter" where
  "IsNull_mergeWith other = (if testNull other then Inr IsNull else Inr AlwaysFalse)"

text \<open>
  Adding one to an \<open>int64_t\<close> below its maximum does not wrap; the counting loops of the
  merges terminate by it.
\<close>

lemma sint_succ:
  assumes "(i::64 word) \<noteq> 0x7FFFFFFFFFFFFFFF"
  shows "sint (i + 1) = sint i + 1"
proof -
  have ne: "sint i \<noteq> 9223372036854775807"
  proof
    assume "sint i = 9223372036854775807"
    then have "(word_of_int (sint i) :: 64 word) = word_of_int 9223372036854775807" by simp
    then show False using assms by simp
  qed
  have lt: "sint i < 2 ^ 63" using sint_lt [of i] by simp
  have ge: "- (2 ^ 63) \<le> sint i" using sint_ge [of i] by simp
  have "sint (i + 1) = signed_take_bit 63 (sint i + 1)" by (simp add: sint_word_ariths)
  also have "\<dots> = sint i + 1" using ne lt ge by (intro signed_take_bit_int_eq_self) simp_all
  finally show ?thesis .
qed

text \<open>
  The loop \<open>for (auto i = min; i <= max; ++i) if (P(i)) valuesToKeep.push_back(i);\<close> of
  the bitmask merges, on the vector \<open>valuesToKeep\<close>. With \<open>max\<close> the largest \<open>int64_t\<close> the
  counter overflows and the loop has no defined behaviour.
\<close>

function keepLoop ::
  "(int64 \<Rightarrow> bool) \<Rightarrow> int64 \<Rightarrow> int64 \<Rightarrow> int64 list \<Rightarrow> velox_error + int64 list" where
  "keepLoop P i mx acc =
     (if i <=s mx then
        (if i = 0x7FFFFFFFFFFFFFFF then Inl (Undefined ''loop counter overflow'')
         else keepLoop P (i + 1) mx (if P i then acc @ [i] else acc))
      else Inr acc)"
  by pat_completeness auto
termination
  by (relation "measure (\<lambda>(P, i, mx, acc). nat (sint mx - sint i + 1))")
     (simp_all add: word_sle_eq sint_succ)

declare keepLoop.simps [simp del]

subsection \<open>BigintValuesUsingBitmask\<close>

text \<open>\<open>BigintValuesUsingBitmask::mergeWith(min, max, other)\<close>.\<close>

definition Bitmask_mergeWith3 ::
  "int64 \<Rightarrow> uint64 \<Rightarrow> filter \<Rightarrow> int64 \<Rightarrow> int64 \<Rightarrow> filter \<Rightarrow> velox_error + filter" where
  "Bitmask_mergeWith3 kEmptyMarker M this mn mx other =
     (let bothNullAllowed = (nullAllowed this \<and> testNull other) in
      case keepLoop (\<lambda>i. bitmask this ! unat (i - valuesMin this) \<and> testInt64 kEmptyMarker M other i)
             mn mx [] of
        Inl e \<Rightarrow> Inl e
      | Inr valuesToKeep \<Rightarrow> createBigintValues kEmptyMarker M valuesToKeep bothNullAllowed)"

text \<open>The loop over \<open>otherMultiRange->ranges()\<close> in the \<open>kBigintMultiRange\<close> case.\<close>

fun Bitmask_keepRanges ::
  "filter \<Rightarrow> bigint_range list \<Rightarrow> int64 list \<Rightarrow> velox_error + int64 list" where
  "Bitmask_keepRanges this [] acc = Inr acc"
| "Bitmask_keepRanges this (r # rs) acc =
     (let mn = smax (valuesMin this) (lower r);
          mx = smin (valuesMax this) (upper r) in
      case keepLoop (\<lambda>i. bitmask this ! unat (i - valuesMin this) \<and> BigintRange_testInt64 r i)
             mn mx acc of
        Inl e \<Rightarrow> Inl e
      | Inr acc' \<Rightarrow> Bitmask_keepRanges this rs acc')"

text \<open>
  \<open>BigintValuesUsingBitmask::mergeWith(other)\<close>. \<open>other->mergeWith(this)\<close> in the first
  three cases is the call of the other class's method; the \<open>default\<close> case is left for
  \<open>BoolValue\<close>.
\<close>

definition Bitmask_mergeWith :: "int64 \<Rightarrow> uint64 \<Rightarrow> filter \<Rightarrow> filter \<Rightarrow> velox_error + filter" where
  "Bitmask_mergeWith kEmptyMarker M this other =
     (case other of
        AlwaysTrue \<Rightarrow> AlwaysTrue_mergeWith this
      | AlwaysFalse \<Rightarrow> AlwaysFalse_mergeWith this
      | IsNull \<Rightarrow> IsNull_mergeWith this
      | IsNotNull \<Rightarrow>
          Inr (BigintValuesUsingBitmask (valuesMin this) (valuesMax this) (bitmask this) False)
      | BigintRange otherRange \<Rightarrow>
          Bitmask_mergeWith3 kEmptyMarker M this
            (smax (valuesMin this) (lower otherRange)) (smin (valuesMax this) (upper otherRange)) other
      | BigintValuesUsingHashTable omn omx t c n \<Rightarrow>
          Bitmask_mergeWith3 kEmptyMarker M this
            (smax (valuesMin this) omn) (smin (valuesMax this) omx) other
      | BigintValuesUsingBitmask omn omx b n \<Rightarrow>
          Bitmask_mergeWith3 kEmptyMarker M this
            (smax (valuesMin this) omn) (smin (valuesMax this) omx) other
      | BigintMultiRange rs lbs n \<Rightarrow>
          (case Bitmask_keepRanges this rs [] of
             Inl e \<Rightarrow> Inl e
           | Inr valuesToKeep \<Rightarrow>
               createBigintValues kEmptyMarker M valuesToKeep (nullAllowed this \<and> testNull other))
      | BoolValue b n \<Rightarrow> Inl Unreachable)"

subsection \<open>BigintValuesUsingHashTable\<close>

text \<open>
  \<open>std::vector<int64_t>::max_size()\<close>: the largest argument \<open>reserve\<close> accepts. It is the
  standard library's; this is the value of libstdc++ on a 64-bit target,
  \<open>PTRDIFF_MAX / sizeof(int64_t)\<close>.
\<close>

definition vector_max_size :: nat where
  "vector_max_size = (2 ^ 63 - 1) div 8"

text \<open>
  \<open>BigintValuesUsingHashTable::mergeWith(min, max, other)\<close>.
  \<open>valuesToKeep.reserve(max - min + 1)\<close> takes its argument as a \<open>size_t\<close> and throws
  \<open>std::length_error\<close> when it is more than \<open>max_size()\<close>; below that the allocation is
  taken to succeed.
\<close>

definition HashTable_mergeWith3 ::
  "int64 \<Rightarrow> uint64 \<Rightarrow> filter \<Rightarrow> int64 \<Rightarrow> int64 \<Rightarrow> filter \<Rightarrow> velox_error + filter" where
  "HashTable_mergeWith3 kEmptyMarker M this mn mx other =
     (let bothNullAllowed = (nullAllowed this \<and> testNull other) in
      if mx <s mn then Inr (nullOrFalse bothNullAllowed)
      else if mx = mn then
        (if HashTable_testInt64 kEmptyMarker M this mn \<and> testInt64 kEmptyMarker M other mn
         then Inr (BigintRange (BRange mn mn bothNullAllowed))
         else Inr (nullOrFalse bothNullAllowed))
      else if vector_max_size < unat (mx - mn + 1) then Inl LengthError
      else
        let valuesToKeep =
              (if containsEmptyMarker this \<and> testInt64 kEmptyMarker M other kEmptyMarker
               then [kEmptyMarker] else []) @
              filter (\<lambda>v. v \<noteq> kEmptyMarker \<and> testInt64 kEmptyMarker M other v) (hashTable this)
        in createBigintValues kEmptyMarker M valuesToKeep bothNullAllowed)"

text \<open>The loop over \<open>otherMultiRange->ranges()\<close> in the \<open>kBigintMultiRange\<close> case.\<close>

fun HashTable_keepRanges :: "int64 \<Rightarrow> filter \<Rightarrow> bigint_range list \<Rightarrow> int64 list \<Rightarrow> int64 list" where
  "HashTable_keepRanges kEmptyMarker this [] acc = acc"
| "HashTable_keepRanges kEmptyMarker this (r # rs) acc =
     (let mn = smax (valuesMin this) (lower r);
          mx = smin (valuesMax this) (upper r) in
      HashTable_keepRanges kEmptyMarker this rs
        (if mn <=s mx
         then acc @ filter (\<lambda>v. v \<noteq> kEmptyMarker \<and> BigintRange_testInt64 r v) (hashTable this)
         else acc))"

text \<open>\<open>BigintValuesUsingHashTable::mergeWith(other)\<close>.\<close>

definition HashTable_mergeWith :: "int64 \<Rightarrow> uint64 \<Rightarrow> filter \<Rightarrow> filter \<Rightarrow> velox_error + filter" where
  "HashTable_mergeWith kEmptyMarker M this other =
     (case other of
        AlwaysTrue \<Rightarrow> AlwaysTrue_mergeWith this
      | AlwaysFalse \<Rightarrow> AlwaysFalse_mergeWith this
      | IsNull \<Rightarrow> IsNull_mergeWith this
      | IsNotNull \<Rightarrow>
          Inr (BigintValuesUsingHashTable (valuesMin this) (valuesMax this) (hashTable this)
                 (containsEmptyMarker this) False)
      | BigintRange otherRange \<Rightarrow>
          HashTable_mergeWith3 kEmptyMarker M this
            (smax (valuesMin this) (lower otherRange)) (smin (valuesMax this) (upper otherRange)) other
      | BigintValuesUsingHashTable omn omx t c n \<Rightarrow>
          HashTable_mergeWith3 kEmptyMarker M this
            (smax (valuesMin this) omn) (smin (valuesMax this) omx) other
      | BigintValuesUsingBitmask omn omx b n \<Rightarrow> Bitmask_mergeWith kEmptyMarker M other this
      | BigintMultiRange rs lbs n \<Rightarrow>
          (let valuesToKeep =
                 HashTable_keepRanges kEmptyMarker this rs
                   (if containsEmptyMarker this \<and> testInt64 kEmptyMarker M other kEmptyMarker
                    then [kEmptyMarker] else [])
           in createBigintValues kEmptyMarker M valuesToKeep (nullAllowed this \<and> testNull other))
      | BoolValue b n \<Rightarrow> Inl Unreachable)"

subsection \<open>BigintRange\<close>

text \<open>The \<open>kBigintRange\<close> case of \<open>BigintRange::mergeWith\<close>.\<close>

definition BigintRange_mergeWith_range :: "bigint_range \<Rightarrow> bigint_range \<Rightarrow> filter" where
  "BigintRange_mergeWith_range this otherRange =
     (let bothNullAllowed = (rangeNullAllowed this \<and> rangeNullAllowed otherRange);
          lo = smax (lower this) (lower otherRange);
          hi = smin (upper this) (upper otherRange)
      in if lo <=s hi then BigintRange (BRange lo hi bothNullAllowed)
         else nullOrFalse bothNullAllowed)"

text \<open>
  The loop of the \<open>kBigintMultiRange\<close> case: \<open>this->mergeWith(range.get())\<close> is the
  \<open>kBigintRange\<close> case above; a result that is neither a BigintRange nor AlwaysFalse fails
  the \<open>VELOX_CHECK\<close>.
\<close>

fun BigintRange_mergeRanges ::
  "bigint_range \<Rightarrow> bigint_range list \<Rightarrow> bigint_range list \<Rightarrow> velox_error + bigint_range list" where
  "BigintRange_mergeRanges this [] newRanges = Inr newRanges"
| "BigintRange_mergeRanges this (r # rs) newRanges =
     (case BigintRange_mergeWith_range this r of
        BigintRange merged \<Rightarrow> BigintRange_mergeRanges this rs (newRanges @ [merged])
      | AlwaysFalse \<Rightarrow> BigintRange_mergeRanges this rs newRanges
      | _ \<Rightarrow> Inl (CheckFailed ''merged->kind() == FilterKind::kAlwaysFalse''))"

text \<open>\<open>BigintRange::mergeWith(other)\<close>.\<close>

definition BigintRange_mergeWith ::
  "int64 \<Rightarrow> uint64 \<Rightarrow> bigint_range \<Rightarrow> filter \<Rightarrow> velox_error + filter" where
  "BigintRange_mergeWith kEmptyMarker M this other =
     (case other of
        AlwaysTrue \<Rightarrow> AlwaysTrue_mergeWith (BigintRange this)
      | AlwaysFalse \<Rightarrow> AlwaysFalse_mergeWith (BigintRange this)
      | IsNull \<Rightarrow> IsNull_mergeWith (BigintRange this)
      | IsNotNull \<Rightarrow> Inr (BigintRange (BRange (lower this) (upper this) False))
      | BigintRange otherRange \<Rightarrow> Inr (BigintRange_mergeWith_range this otherRange)
      | BigintValuesUsingBitmask omn omx b n \<Rightarrow>
          Bitmask_mergeWith kEmptyMarker M other (BigintRange this)
      | BigintValuesUsingHashTable omn omx t c n \<Rightarrow>
          HashTable_mergeWith kEmptyMarker M other (BigintRange this)
      | BigintMultiRange rs lbs n \<Rightarrow>
          (case BigintRange_mergeRanges this rs [] of
             Inl e \<Rightarrow> Inl e
           | Inr newRanges \<Rightarrow>
               combineBigintRanges newRanges (rangeNullAllowed this \<and> testNull other))
      | BoolValue b n \<Rightarrow> Inl Unreachable)"

subsection \<open>BigintMultiRange\<close>

text \<open>
  The loop of the \<open>kBigintMultiRange\<close> case of \<open>BigintMultiRange::mergeWith\<close>:
  \<open>range->mergeWith(other)\<close> is \<open>BigintRange::mergeWith\<close>.
\<close>

fun BigintMultiRange_mergeRanges ::
  "int64 \<Rightarrow> uint64 \<Rightarrow> bigint_range list \<Rightarrow> filter \<Rightarrow> bigint_range list \<Rightarrow>
   velox_error + bigint_range list" where
  "BigintMultiRange_mergeRanges kEmptyMarker M [] other newRanges = Inr newRanges"
| "BigintMultiRange_mergeRanges kEmptyMarker M (r # rs) other newRanges =
     (case BigintRange_mergeWith kEmptyMarker M r other of
        Inl e \<Rightarrow> Inl e
      | Inr (BigintRange merged) \<Rightarrow>
          BigintMultiRange_mergeRanges kEmptyMarker M rs other (newRanges @ [merged])
      | Inr (BigintMultiRange mrs mlbs mn) \<Rightarrow>
          BigintMultiRange_mergeRanges kEmptyMarker M rs other (newRanges @ mrs)
      | Inr AlwaysFalse \<Rightarrow> BigintMultiRange_mergeRanges kEmptyMarker M rs other newRanges
      | Inr _ \<Rightarrow> Inl (CheckFailed ''merged->kind() == FilterKind::kAlwaysFalse''))"

text \<open>\<open>BigintMultiRange::mergeWith(other)\<close>.\<close>

definition BigintMultiRange_mergeWith ::
  "int64 \<Rightarrow> uint64 \<Rightarrow> filter \<Rightarrow> filter \<Rightarrow> velox_error + filter" where
  "BigintMultiRange_mergeWith kEmptyMarker M this other =
     (case other of
        AlwaysTrue \<Rightarrow> AlwaysTrue_mergeWith this
      | AlwaysFalse \<Rightarrow> AlwaysFalse_mergeWith this
      | IsNull \<Rightarrow> IsNull_mergeWith this
      | IsNotNull \<Rightarrow> BigintMultiRange_ctor (ranges this) False
      | BigintRange otherRange \<Rightarrow> BigintRange_mergeWith kEmptyMarker M otherRange this
      | BigintValuesUsingBitmask omn omx b n \<Rightarrow> Bitmask_mergeWith kEmptyMarker M other this
      | BigintValuesUsingHashTable omn omx t c n \<Rightarrow> HashTable_mergeWith kEmptyMarker M other this
      | BigintMultiRange rs lbs n \<Rightarrow>
          (case BigintMultiRange_mergeRanges kEmptyMarker M (ranges this) other [] of
             Inl e \<Rightarrow> Inl e
           | Inr newRanges \<Rightarrow>
               (let bothNullAllowed = (nullAllowed this \<and> testNull other) in
                if newRanges = [] then Inr (nullOrFalse bothNullAllowed)
                else if length newRanges = 1
                then Inr (BigintRange (BRange (lower (hd newRanges)) (upper (hd newRanges))
                            bothNullAllowed))
                else BigintMultiRange_ctor newRanges bothNullAllowed))
      | BoolValue b n \<Rightarrow> Inl Unreachable)"

subsection \<open>BoolValue, IsNotNull and the virtual call\<close>

text \<open>
  \<open>BoolValue::mergeWith(other)\<close>; \<open>other->testBool(value_)\<close> on a BoolValue compares the
  two values.
\<close>

definition BoolValue_mergeWith :: "filter \<Rightarrow> filter \<Rightarrow> velox_error + filter" where
  "BoolValue_mergeWith this other =
     (case other of
        AlwaysTrue \<Rightarrow> AlwaysTrue_mergeWith this
      | AlwaysFalse \<Rightarrow> AlwaysFalse_mergeWith this
      | IsNull \<Rightarrow> IsNull_mergeWith this
      | IsNotNull \<Rightarrow> Inr (BoolValue (boolValue this) False)
      | BoolValue b n \<Rightarrow>
          (let bothNullAllowed = (nullAllowed this \<and> testNull other) in
           if b = boolValue this then Inr (BoolValue (boolValue this) bothNullAllowed)
           else Inr (nullOrFalse bothNullAllowed))
      | _ \<Rightarrow> Inl Unreachable)"

text \<open>\<open>IsNotNull::mergeWith(other)\<close>: the \<open>default\<close> case calls the other class's method.\<close>

definition IsNotNull_mergeWith :: "int64 \<Rightarrow> uint64 \<Rightarrow> filter \<Rightarrow> velox_error + filter" where
  "IsNotNull_mergeWith kEmptyMarker M other =
     (case other of
        AlwaysTrue \<Rightarrow> Inr IsNotNull
      | IsNotNull \<Rightarrow> Inr IsNotNull
      | AlwaysFalse \<Rightarrow> Inr AlwaysFalse
      | IsNull \<Rightarrow> Inr AlwaysFalse
      | BoolValue b n \<Rightarrow> BoolValue_mergeWith other IsNotNull
      | BigintRange r \<Rightarrow> BigintRange_mergeWith kEmptyMarker M r IsNotNull
      | BigintValuesUsingHashTable mn mx t c n \<Rightarrow> HashTable_mergeWith kEmptyMarker M other IsNotNull
      | BigintValuesUsingBitmask mn mx b n \<Rightarrow> Bitmask_mergeWith kEmptyMarker M other IsNotNull
      | BigintMultiRange rs lbs n \<Rightarrow> BigintMultiRange_mergeWith kEmptyMarker M other IsNotNull)"

text \<open>The virtual call \<open>a->mergeWith(b)\<close>: the method of the class of \<open>a\<close>.\<close>

definition mergeWith :: "int64 \<Rightarrow> uint64 \<Rightarrow> filter \<Rightarrow> filter \<Rightarrow> velox_error + filter" where
  "mergeWith kEmptyMarker M a b =
     (case a of
        AlwaysFalse \<Rightarrow> AlwaysFalse_mergeWith b
      | AlwaysTrue \<Rightarrow> AlwaysTrue_mergeWith b
      | IsNull \<Rightarrow> IsNull_mergeWith b
      | IsNotNull \<Rightarrow> IsNotNull_mergeWith kEmptyMarker M b
      | BoolValue v n \<Rightarrow> BoolValue_mergeWith a b
      | BigintRange r \<Rightarrow> BigintRange_mergeWith kEmptyMarker M r b
      | BigintValuesUsingHashTable mn mx t c n \<Rightarrow> HashTable_mergeWith kEmptyMarker M a b
      | BigintValuesUsingBitmask mn mx bm n \<Rightarrow> Bitmask_mergeWith kEmptyMarker M a b
      | BigintMultiRange rs lbs n \<Rightarrow> BigintMultiRange_mergeWith kEmptyMarker M a b)"

section \<open>Byte ranges\<close>

text \<open>
  \<open>memcmp(lhs, rhs, n)\<close> on the first \<open>n\<close> bytes, read as unsigned: zero when they agree,
  otherwise the difference of the first two bytes that differ (C fixes only its sign, and
  only the sign is used). Both strings have at least \<open>n\<close> bytes where the source calls it.
\<close>

fun memcmp :: "string \<Rightarrow> string \<Rightarrow> nat \<Rightarrow> int" where
  "memcmp (x # xs) (y # ys) (Suc n) =
     (if x = y then memcmp xs ys n else int (of_char x) - int (of_char y))"
| "memcmp xs ys n = 0"

text \<open>
  \<open>compareRanges\<close> (Filter.cpp, anonymous namespace); the lengths are below \<open>2^31\<close>, so
  \<open>length - rhs.size()\<close> is their difference as an \<open>int\<close>.
\<close>

definition compareRanges :: "string \<Rightarrow> string \<Rightarrow> int" where
  "compareRanges lhs rhs =
     (let size = min (length lhs) (length rhs);
          compare = memcmp lhs rhs size
      in if compare \<noteq> 0 then compare else int (length lhs) - int (length rhs))"

text \<open>The members of \<open>class BytesRange\<close> that its tests read.\<close>

record BytesRange =
  lowerBytes :: string
  upperBytes :: string
  lowerExclusive :: bool
  upperExclusive :: bool
  lowerUnbounded :: bool
  upperUnbounded :: bool
  singleValue :: bool
  bytesNullAllowed :: bool

text \<open>\<open>BytesRange::testBytes\<close>.\<close>

definition testBytes :: "BytesRange \<Rightarrow> string \<Rightarrow> bool" where
  "testBytes this v =
     (if singleValue this then
        (if length v \<noteq> length (lowerBytes this) then False
         else memcmp v (lowerBytes this) (length v) = 0)
      else if \<not> lowerUnbounded this \<and>
              (compareRanges v (lowerBytes this) < 0 \<or>
               (lowerExclusive this \<and> compareRanges v (lowerBytes this) = 0))
      then False
      else if \<not> upperUnbounded this then
        (compareRanges v (upperBytes this) < 0 \<or>
         (\<not> upperExclusive this \<and> compareRanges v (upperBytes this) = 0))
      else True)"

text \<open>
  \<open>BytesRange::testBytesRange\<close>; \<open>std::optional<std::string_view>\<close> is \<open>string option\<close>,
  \<open>None\<close> the absent bound.
\<close>

definition testBytesRange :: "BytesRange \<Rightarrow> string option \<Rightarrow> string option \<Rightarrow> bool \<Rightarrow> bool" where
  "testBytesRange this mn mx hasNull =
     (if hasNull \<and> bytesNullAllowed this then True
      else if mn \<noteq> None \<and> mx \<noteq> None \<and> the mn = the mx then testBytes this (the mn)
      else if lowerUnbounded this then
        (mn \<noteq> None \<and> compareRanges (the mn) (upperBytes this) < 0)
      else if upperUnbounded this then
        (mx \<noteq> None \<and> compareRanges (the mx) (lowerBytes this) > 0)
      else if mn \<noteq> None \<and> compareRanges (the mn) (upperBytes this) > 0 then False
      else if mx \<noteq> None \<and> compareRanges (the mx) (lowerBytes this) < 0 then False
      else True)"

text \<open>
  A byte string lies in the summary \<open>(min, max)\<close> of a page: not below \<open>min\<close> and not
  above \<open>max\<close> in the order of \<open>compareRanges\<close>, an absent bound being no bound.
\<close>

definition inBytesSummary :: "string option \<Rightarrow> string option \<Rightarrow> string \<Rightarrow> bool" where
  "inBytesSummary mn mx s =
     ((case mn of None \<Rightarrow> True | Some a \<Rightarrow> 0 \<le> compareRanges s a) \<and>
      (case mx of None \<Rightarrow> True | Some b \<Rightarrow> compareRanges s b \<le> 0))"

section \<open>MultiRange on floating-point values\<close>

text \<open>
  A \<open>double\<close> and a \<open>float\<close> are their IEEE 754 encodings; \<open>std::isnan\<close> holds of the
  encodings whose exponent bits are all set and whose fraction is not zero.
\<close>

type_synonym double = "64 word"
type_synonym float32 = "32 word"

definition isnan_double :: "double \<Rightarrow> bool" where
  "isnan_double d =
     (d AND 0x7FF0000000000000 = 0x7FF0000000000000 \<and> d AND 0x000FFFFFFFFFFFFF \<noteq> 0)"

definition isnan_float :: "float32 \<Rightarrow> bool" where
  "isnan_float f = (f AND 0x7F800000 = 0x7F800000 \<and> f AND 0x007FFFFF \<noteq> 0)"

text \<open>
  \<open>class MultiRange\<close>: its children \<open>filters_\<close> are filters of any class, of type \<open>'f\<close>
  here; the virtual tests of a child are the parameters \<open>childTest\<close> below.
\<close>

record 'f MultiRange =
  filters :: "'f list"
  multiNullAllowed :: bool
  nanAllowed :: bool

text \<open>The loop \<open>for (const auto& filter : filters_) if (filter->test(value)) return true;\<close>\<close>

fun anyFilter :: "('f \<Rightarrow> 'v \<Rightarrow> bool) \<Rightarrow> 'f list \<Rightarrow> 'v \<Rightarrow> bool" where
  "anyFilter childTest [] v = False"
| "anyFilter childTest (f # fs) v = (if childTest f v then True else anyFilter childTest fs v)"

text \<open>\<open>MultiRange::testDouble\<close> and \<open>MultiRange::testFloat\<close>.\<close>

definition MultiRange_testDouble :: "('f \<Rightarrow> double \<Rightarrow> bool) \<Rightarrow> 'f MultiRange \<Rightarrow> double \<Rightarrow> bool" where
  "MultiRange_testDouble childTestDouble this v =
     (if isnan_double v then nanAllowed this
      else anyFilter childTestDouble (filters this) v)"

definition MultiRange_testFloat :: "('f \<Rightarrow> float32 \<Rightarrow> bool) \<Rightarrow> 'f MultiRange \<Rightarrow> float32 \<Rightarrow> bool" where
  "MultiRange_testFloat childTestFloat this v =
     (if isnan_float v then nanAllowed this
      else anyFilter childTestFloat (filters this) v)"

section \<open>The invariant of the hash table\<close>

text \<open>
  \<open>probeOk\<close>: the value \<open>x\<close> is in the table at a slot of its probe sequence with no empty
  slot before it, so the probe of \<open>testInt64\<close> reaches it. \<open>tableInv\<close>: the table of \<open>sz\<close>
  slots holds exactly the inserted values \<open>vs\<close> other than the marker, each reachable by
  its probe, and every insertion has used at most one empty slot.
\<close>

definition probeOk :: "int64 \<Rightarrow> nat \<Rightarrow> nat \<Rightarrow> int64 list \<Rightarrow> int64 \<Rightarrow> bool" where
  "probeOk kE sz h t x =
     (\<exists>d < sz. t ! ((h + d) mod sz) = x \<and> (\<forall>e<d. t ! ((h + e) mod sz) \<noteq> kE))"

definition tableInv :: "int64 \<Rightarrow> uint64 \<Rightarrow> nat \<Rightarrow> int64 list \<Rightarrow> int64 list \<Rightarrow> bool" where
  "tableInv kE M sz t vs =
     (length t = sz \<and> set t - {kE} = set vs - {kE} \<and>
      sz \<le> length (filter (\<lambda>x. x = kE) t) + length vs \<and>
      (\<forall>x\<in>set t. x \<noteq> kE \<longrightarrow> probeOk kE sz (hashPosition M sz x) t x) \<and>
      (distinct vs \<longrightarrow> distinct (filter (\<lambda>x. x \<noteq> kE) t)))"

section \<open>A long input vector\<close>

text \<open>The vector of the values \<open>0, 1, ..., n - 1\<close>.\<close>

definition firstNaturals :: "nat \<Rightarrow> int64 list" where
  "firstNaturals n = map of_nat [0..<n]"

section \<open>Normal forms of merge results\<close>



definition noDuplicates :: "int64 \<Rightarrow> filter \<Rightarrow> bool" where
  "noDuplicates kE f =
     (case f of
        BigintValuesUsingHashTable mn mx t c n \<Rightarrow> distinct (filter (\<lambda>x. x \<noteq> kE) t)
      | _ \<Rightarrow> True)"



section \<open>Signed comparison, read through \<open>sint\<close>\<close>

lemma sint_smax: "sint (smax a b) = max (sint a) (sint b)"
  by (simp add: smax_def word_sless_alt max_def)

lemma sint_smin: "sint (smin a b) = min (sint a) (sint b)"
  by (simp add: smin_def word_sless_alt min_def)

lemma smax_of_int: "smax a b = word_of_int (max (sint a) (sint b))"
  by (simp add: smax_def word_sless_alt max_def)

lemma smin_of_int: "smin a b = word_of_int (min (sint a) (sint b))"
  by (simp add: smin_def word_sless_alt min_def)

section \<open>BigintRange merged with BigintRange\<close>

text \<open>
  Claim C4: merging \<open>BigintRange(l1, u1, n1)\<close> with \<open>BigintRange(l2, u2, n2)\<close> returns
  \<open>BigintRange(max(l1, l2), min(u1, u2), n1 && n2)\<close> when \<open>max(l1, l2) \<le> min(u1, u2)\<close>, and
  otherwise IsNull if \<open>n1 && n2\<close>, else AlwaysFalse. The bounds are compared as the signed
  integers they stand for. (The claim's \<open>l1 \<le> u1\<close> and \<open>l2 \<le> u2\<close> are not needed.)
\<close>

theorem BigintRange_mergeWith_BigintRange:
  "mergeWith kE M (BigintRange (BRange l1 u1 n1)) (BigintRange (BRange l2 u2 n2)) =
     Inr (if max (sint l1) (sint l2) \<le> min (sint u1) (sint u2)
          then BigintRange (BRange (word_of_int (max (sint l1) (sint l2)))
                                   (word_of_int (min (sint u1) (sint u2))) (n1 \<and> n2))
          else if n1 \<and> n2 then IsNull else AlwaysFalse)"
proof -
  have "mergeWith kE M (BigintRange (BRange l1 u1 n1)) (BigintRange (BRange l2 u2 n2)) =
        Inr (BigintRange_mergeWith_range (BRange l1 u1 n1) (BRange l2 u2 n2))"
    by (simp add: mergeWith_def BigintRange_mergeWith_def)
  moreover have "(smax l1 l2 <=s smin u1 u2) = (max (sint l1) (sint l2) \<le> min (sint u1) (sint u2))"
    by (simp only: word_sle_eq sint_smax sint_smin)
  ultimately show ?thesis
    by (simp add: BigintRange_mergeWith_range_def nullOrFalse_def Let_def smax_of_int smin_of_int)
qed

text \<open>The instance of the claim: \<open>[1, 10]\<close> with null merged with \<open>[5, 20]\<close> without.\<close>

theorem BigintRange_mergeWith_BigintRange_witness:
  "mergeWith 0xdeadbeefbadefeed 0xc6a4a7935bd1e995
     (BigintRange (BRange 1 10 True)) (BigintRange (BRange 5 20 False)) =
   Inr (BigintRange (BRange 5 10 False))"
  using BigintRange_mergeWith_BigintRange
    [of "0xdeadbeefbadefeed" "0xc6a4a7935bd1e995" 1 10 True 5 20 False]
  by simp

section \<open>The factory on a vector of equal values\<close>

lemma minMax_same: "set vs \<subseteq> {v} \<Longrightarrow> minMax v v vs = (v, v)"
  by (induction vs) auto

lemma of_nat_length_neq_1:
  assumes "2 \<le> n" "n < 2 ^ 64"
  shows "(of_nat n :: 64 word) \<noteq> 1"
proof
  assume "(of_nat n :: 64 word) = 1"
  then have "unat (of_nat n :: 64 word) = 1" by simp
  moreover have "unat (of_nat n :: 64 word) = n" using assms(2) by (simp add: unat_of_nat)
  ultimately show False using assms(1) by simp
qed

text \<open>
  Claim C9: for every value \<open>v\<close> and null flag, \<open>createBigintValues\<close> on a vector of two or
  more entries that all equal \<open>v\<close> fails the \<open>min < max\<close> check of the bitmask constructor
  instead of returning a filter, although the one-entry vector \<open>[v]\<close> gives
  \<open>BigintRange(v, v, nullAllowed)\<close>. (A vector's length is a \<open>size_t\<close>, below \<open>2^64\<close>.)
\<close>

theorem createBigintValues_all_equal:
  assumes "set values = {v}" "2 \<le> length values" "length values < 2 ^ 64"
  shows "createBigintValues kE M values na = Inl (CheckFailed ''min must be less than max'')
         \<and> createBigintValues kE M [v] na = Inr (BigintRange (BRange v v na))"
proof -
  have ne: "values \<noteq> []" using assms(2) by auto
  have "set (tl values) \<subseteq> {v}" using assms(1) ne by (metis list.set_sel(2) subsetI)
  then have mm: "minMax v v (tl values) = (v, v)" by (rule minMax_same)
  have v0: "values ! 0 = v" using assms(1) ne by (metis nth_mem length_greater_0_conv singletonD)
  have n1: "(1 :: 64 word) \<noteq> of_nat (length values)"
    using of_nat_length_neq_1 [OF assms(2,3)] by simp
  have l1: "length values \<noteq> 1" using assms(2) by simp
  show ?thesis
    using ne l1 n1
    by (simp add: createBigintValues_def v0 mm sub_overflow_def BigintValuesUsingBitmask_ctor_def
        word_sless_alt)
qed

theorem createBigintValues_all_equal_witness:
  "createBigintValues 0xdeadbeefbadefeed 0xc6a4a7935bd1e995 [7, 7, 7] True =
     Inl (CheckFailed ''min must be less than max'')
   \<and> createBigintValues 0xdeadbeefbadefeed 0xc6a4a7935bd1e995 [7] True =
     Inr (BigintRange (BRange 7 7 True))"
  using createBigintValues_all_equal
    [of "[7, 7, 7]" 7 "0xdeadbeefbadefeed" "0xc6a4a7935bd1e995" True]
  by simp

section \<open>Word arithmetic used by the factory\<close>

lemma sint_bounds64: "- (2 ^ 63) \<le> sint (a :: 64 word)" "sint (a :: 64 word) < 2 ^ 63"
  using sint_ge [of a] sint_lt [of a] by simp_all

lemma unat_sub_signed:
  assumes "a <=s (b :: 64 word)"
  shows "unat (b - a) = nat (sint b - sint a)"
proof -
  have k0: "0 \<le> sint b - sint a" using assms by (simp add: word_sle_eq)
  have k1: "sint b - sint a < 2 ^ 64" using sint_bounds64 [of a] sint_bounds64 [of b] by simp
  have conv: "unat (word_of_int k :: 64 word) = nat (take_bit 64 k)" for k
    by (simp add: unsigned_of_int)
  have "b - a = word_of_int (sint b - sint a)" by simp
  then have "unat (b - a) = nat (take_bit 64 (sint b - sint a))" by (simp only: conv)
  also have "\<dots> = nat (sint b - sint a)" using k0 k1 by (simp add: take_bit_int_eq_self)
  finally show ?thesis .
qed

lemma floorLog2_bounds: "0 < n \<Longrightarrow> 2 ^ floorLog2 n \<le> n \<and> n < 2 * 2 ^ floorLog2 n"
proof (induction n rule: floorLog2.induct)
  case (1 n)
  show ?case
  proof (cases "n < 2")
    case True
    with 1(2) show ?thesis by (simp add: floorLog2.simps)
  next
    case False
    then have "0 < n div 2" by simp
    with 1(1) False have ih: "2 ^ floorLog2 (n div 2) \<le> n div 2 \<and> n div 2 < 2 * 2 ^ floorLog2 (n div 2)"
      by simp
    have eq: "floorLog2 n = Suc (floorLog2 (n div 2))" using False by (simp add: floorLog2.simps)
    show ?thesis using ih unfolding eq by auto
  qed
qed

lemma insertProbe_length: "insertProbe kE tbl sz v i n = Some t \<Longrightarrow> length t = length tbl"
  by (induction n arbitrary: i) (auto simp: Let_def split: if_splits)

lemma insertValue_length: "length (fst (insertValue kE M sz st v)) = length (fst st)"
  by (auto simp: insertValue_def insertProbe_length split: option.splits)

lemma insertAll_length: "length (fst (insertAll kE M sz st vs)) = length (fst st)"
  by (induction vs arbitrary: st) (simp_all add: insertValue_length)

lemma minMax_extremes:
  "mn <=s mx \<Longrightarrow> minMax mn mx vs = (a, b) \<Longrightarrow>
     a \<in> insert mn (set vs) \<and> b \<in> insert mx (set vs) \<and> a <=s mn \<and> mx <=s b \<and>
     (\<forall>v\<in>set vs. a <=s v \<and> v <=s b)"
proof (induction vs arbitrary: mn mx)
  case Nil
  then show ?case by simp
next
  case (Cons v vs)
  show ?case
  proof (cases "mx <s v")
    case True
    then have "mn <=s v" using Cons.prems(1) by (simp add: word_sle_eq word_sless_alt)
    moreover have "minMax mn v vs = (a, b)" using Cons.prems(2) True by simp
    ultimately have "a \<in> insert mn (set vs) \<and> b \<in> insert v (set vs) \<and> a <=s mn \<and> v <=s b \<and>
       (\<forall>w\<in>set vs. a <=s w \<and> w <=s b)" by (rule Cons.IH)
    then show ?thesis using True Cons.prems(1) by (auto simp: word_sle_eq word_sless_alt)
  next
    case False
    show ?thesis
    proof (cases "v <s mn")
      case True
      then have "v <=s mx" using Cons.prems(1) by (simp add: word_sle_eq word_sless_alt)
      moreover have "minMax v mx vs = (a, b)" using Cons.prems(2) True False by simp
      ultimately have "a \<in> insert v (set vs) \<and> b \<in> insert mx (set vs) \<and> a <=s v \<and> mx <=s b \<and>
         (\<forall>w\<in>set vs. a <=s w \<and> w <=s b)" by (rule Cons.IH)
      then show ?thesis using True Cons.prems(1) by (auto simp: word_sle_eq word_sless_alt)
    next
      case F2: False
      have "minMax mn mx vs = (a, b)" using Cons.prems(2) False F2 by simp
      with Cons.prems(1) have "a \<in> insert mn (set vs) \<and> b \<in> insert mx (set vs) \<and> a <=s mn \<and> mx <=s b \<and>
         (\<forall>w\<in>set vs. a <=s w \<and> w <=s b)" by (rule Cons.IH)
      then show ?thesis using False F2 by (auto simp: word_sle_eq word_sless_alt)
    qed
  qed
qed

lemma sint_inject64: "sint a = sint b \<Longrightarrow> a = (b :: 64 word)"
proof -
  assume "sint a = sint b"
  then have "(word_of_int (sint a) :: 64 word) = word_of_int (sint b)" by (rule arg_cong)
  then show ?thesis by simp
qed

lemma sle_antisym: "a <=s b \<Longrightarrow> b <=s a \<Longrightarrow> a = (b :: 64 word)"
  by (rule sint_inject64) (simp add: word_sle_eq)

lemma minMax_values:
  assumes ne: "values \<noteq> []"
      and mn: "mn \<in> set values" "\<forall>v\<in>set values. mn <=s v"
      and mx: "mx \<in> set values" "\<forall>v\<in>set values. v <=s mx"
  shows "minMax (values ! 0) (values ! 0) (tl values) = (mn, mx)"
proof -
  obtain x rest where v: "values = x # rest" using ne by (cases "values") auto
  obtain a b where ab: "minMax x x rest = (a, b)" by (cases "minMax x x rest") auto
  have "x <=s x" by simp
  from minMax_extremes [OF this ab]
  have e: "a \<in> set values" "b \<in> set values" "\<forall>w\<in>set values. a <=s w \<and> w <=s b"
    by (auto simp: v)
  have "a = mn" using e mn by (auto intro: sle_antisym)
  moreover have "b = mx" using e mx by (auto intro: sle_antisym)
  ultimately show ?thesis using ab by (simp add: v)
qed

lemma setBits_spec:
  "\<forall>v\<in>set vs. unat (v - mn) < length bm \<Longrightarrow>
   setBits bm mn vs = Inr (map (\<lambda>i. bm ! i \<or> i \<in> (\<lambda>v. unat (v - mn)) ` set vs) [0..<length bm])"
proof (induction vs arbitrary: bm)
  case Nil
  then show ?case by (simp add: map_nth)
next
  case (Cons v vs)
  have "setBits (bm[unat (v - mn) := True]) mn vs =
        Inr (map (\<lambda>i. (bm[unat (v - mn) := True]) ! i \<or> i \<in> (\<lambda>v. unat (v - mn)) ` set vs)
               [0..<length (bm[unat (v - mn) := True])])"
    by (rule Cons.IH) (use Cons.prems in simp)
  then show ?case using Cons.prems by (auto simp: Let_def nth_list_update)
qed

lemma sint_sub_no_overflow:
  assumes "- (2 ^ 63) \<le> sint a - sint b" "sint a - sint b < 2 ^ 63"
  shows "sint (a - b :: 64 word) = sint a - sint b"
proof -
  have "sint (a - b) = signed_take_bit 63 (sint a - sint b)" by (simp add: sint_word_ariths)
  also have "\<dots> = sint a - sint b" using assms by (intro signed_take_bit_int_eq_self) simp_all
  finally show ?thesis .
qed

lemma unat_of_nat64: "n < 2 ^ 64 \<Longrightarrow> unat (of_nat n :: 64 word) = n"
  by (simp add: unat_of_nat)

lemma floorLog2_less: 
  assumes "0 < n" "n < 2 ^ k" shows "floorLog2 n < k"
proof -
  have "(2::nat) ^ floorLog2 n \<le> n" using floorLog2_bounds [OF assms(1)] by simp
  then have "(2::nat) ^ floorLog2 n < 2 ^ k" using assms(2) by (rule le_less_trans)
  then show ?thesis by simp
qed

lemma Bitmask_ctor_spec:
  assumes "mn <s mx" "1 < length values" "\<forall>v\<in>set values. mn <=s v \<and> v <=s mx"
      and "sint mx - sint mn < 2 ^ 63"
  shows "BigintValuesUsingBitmask_ctor mn mx values na =
         Inr (BigintValuesUsingBitmask mn mx
               (map (\<lambda>i. i \<in> (\<lambda>v. unat (v - mn)) ` set values) [0..<nat (sint mx - sint mn) + 1]) na)"
proof -
  have le: "mn <=s mx" using assms(1) by (simp add: word_sle_eq word_sless_alt)
  have u: "unat (mx - mn) = nat (sint mx - sint mn)" by (rule unat_sub_signed [OF le])
  have "unat (mx - mn) + unat (1 :: 64 word) < 2 ^ LENGTH(64)" using u assms(4) by simp
  then have "unat (mx - mn + 1) = unat (mx - mn) + unat (1 :: 64 word)" by (simp only: unat_add_lem)
  then have len: "unat (mx - mn + 1) = nat (sint mx - sint mn) + 1" using u by simp
  have inb: "\<forall>v\<in>set values. unat (v - mn) < length (replicate (unat (mx - mn + 1)) False)"
  proof
    fix v assume v: "v \<in> set values"
    then have "mn <=s v" "v <=s mx" using assms(3) by auto
    then have "unat (v - mn) = nat (sint v - sint mn)" "sint v \<le> sint mx"
      by (simp_all add: unat_sub_signed word_sle_eq)
    then show "unat (v - mn) < length (replicate (unat (mx - mn + 1)) False)" using len by simp
  qed
  have "setBits (replicate (unat (mx - mn + 1)) False) mn values =
        Inr (map (\<lambda>i. i \<in> (\<lambda>v. unat (v - mn)) ` set values) [0..<unat (mx - mn + 1)])"
    using setBits_spec [OF inb] by simp
  then show ?thesis
    unfolding len [symmetric] using assms(1,2) by (simp add: BigintValuesUsingBitmask_ctor_def)
qed

lemma HashTable_ctor_spec:
  assumes "mn <s mx" "1 < length values" "3 * length values < 2 ^ 31"
  shows "BigintValuesUsingHashTable_ctor kE M mn mx values na =
         Inr (BigintValuesUsingHashTable mn mx
               (fst (insertAll kE M (tableSize (length values))
                      (replicate (tableSize (length values)) kE, False) values))
               (snd (insertAll kE M (tableSize (length values))
                      (replicate (tableSize (length values)) kE, False) values)) na)"
proof -
  have "0 < length values * 3" using assms(2) by arith
  moreover have "length values * 3 < 2 ^ 31" using assms(3) by (simp add: mult.commute)
  ultimately have "floorLog2 (length values * 3) < 31" by (rule floorLog2_less)
  then show ?thesis using assms(1,2) by (simp add: BigintValuesUsingHashTable_ctor_def Let_def)
qed

lemma interval_point:
  assumes "mn <=s (mx :: 64 word)" "int k \<le> sint mx - sint mn"
  shows "sint (mn + of_nat k) = sint mn + int k"
proof -
  have bmn: "- (2 ^ 63) \<le> sint mn" "sint mn < 2 ^ 63" using sint_bounds64 [of mn] by simp_all
  have bmx: "sint mx < 2 ^ 63" using sint_bounds64 [of mx] by simp
  have k: "k < 2 ^ 64" using assms(2) bmn bmx by simp
  have "mn + of_nat k = word_of_int (sint mn + int k)" by simp
  then have "sint (mn + of_nat k) = signed_take_bit 63 (sint mn + int k)"
    by (simp only: sint_sbintrunc') simp
  also have "\<dots> = sint mn + int k"
    using assms(2) bmn bmx by (intro signed_take_bit_int_eq_self) simp_all
  finally show ?thesis .
qed

lemma interval_length:
  assumes le: "mn <=s (mx :: 64 word)" and d: "distinct vs"
      and eq: "\<forall>v. (v \<in> set vs) = (mn <=s v \<and> v <=s mx)"
  shows "length vs = nat (sint mx - sint mn) + 1"
proof -
  define N where "N = nat (sint mx - sint mn) + 1"
  define g where "g = (\<lambda>v :: 64 word. unat (v - mn))"
  have inj: "inj_on g (set vs)"
    by (rule inj_onI) (simp add: g_def word_unat_eq_iff [symmetric])
  have sub: "g ` set vs \<subseteq> {0..<N}"
  proof
    fix i assume "i \<in> g ` set vs"
    then obtain v where v: "v \<in> set vs" "i = g v" by auto
    then have "mn <=s v" "v <=s mx" using eq by auto
    then show "i \<in> {0..<N}" using v(2) by (simp add: g_def unat_sub_signed N_def word_sle_eq)
  qed
  have sup: "{0..<N} \<subseteq> g ` set vs"
  proof
    fix k assume "k \<in> {0..<N}"
    then have k: "int k \<le> sint mx - sint mn" using le by (simp add: N_def word_sle_eq)
    have s: "sint (mn + of_nat k) = sint mn + int k" by (rule interval_point [OF le k])
    then have "mn <=s mn + of_nat k" "mn + of_nat k <=s mx" using k by (simp_all add: word_sle_eq)
    then have "mn + of_nat k \<in> set vs" using eq by simp
    moreover have "g (mn + of_nat k) = k"
    proof -
      have "k < 2 ^ 64" using k sint_bounds64 [of mn] sint_bounds64 [of mx] by simp
      then show ?thesis by (simp add: g_def unat_of_nat64)
    qed
    ultimately show "k \<in> g ` set vs" by (metis imageI)
  qed
  have "card (g ` set vs) = N" using sub sup by (simp add: set_eq_subset [symmetric] subset_antisym)
  then have "card (set vs) = N" using inj by (simp add: card_image)
  then show ?thesis using d by (simp add: distinct_card N_def)
qed

lemma HashTable_ctor_undefined:
  assumes "mn <s mx" "1 < length values" "\<not> 3 * length values < 2 ^ 31"
  shows "BigintValuesUsingHashTable_ctor kE M mn mx values na = Inl (Undefined ''table size'')"
proof -
  have "0 < length values * 3" using assms(2) by arith
  from floorLog2_bounds [OF this]
  have "length values * 3 < 2 * 2 ^ floorLog2 (length values * 3)" by simp
  moreover have "(2 :: nat) ^ 31 \<le> length values * 3" using assms(3) by (simp add: mult.commute)
  ultimately have "(2 :: nat) ^ 31 < 2 ^ Suc (floorLog2 (length values * 3))" by simp
  then have "31 < Suc (floorLog2 (length values * 3))" by (simp only: power_strict_increasing_iff)
  then have "31 \<le> floorLog2 (length values * 3)" by simp
  then show ?thesis using assms(1,2) by (simp add: BigintValuesUsingHashTable_ctor_def)
qed

lemma distinct_extremes_differ:
  assumes d: "distinct values" and l: "2 \<le> length values"
      and b: "\<forall>v\<in>set values. mn <=s v \<and> v <=s mx"
  shows "mn \<noteq> (mx :: 64 word)"
proof
  assume e: "mn = mx"
  have "set values \<subseteq> {mn}"
  proof
    fix v assume "v \<in> set values"
    then have "mn <=s v" "v <=s mn" using b e by auto
    then have "mn = v" by (rule sle_antisym)
    then show "v \<in> {mn}" by simp
  qed
  then have "card (set values) \<le> card {mn}" by (intro card_mono) simp_all
  then have "length values \<le> 1" using d by (simp add: distinct_card)
  then show False using l by simp
qed

lemma contiguous_iff:
  assumes d: "distinct values" and le: "mn <=s (mx :: 64 word)"
      and b: "\<forall>v\<in>set values. mn <=s v \<and> v <=s mx"
  shows "(int (length values) = sint mx - sint mn + 1) = (set values = {v. mn <=s v \<and> v <=s mx})"
proof
  assume "set values = {v. mn <=s v \<and> v <=s mx}"
  then have "\<forall>v. (v \<in> set values) = (mn <=s v \<and> v <=s mx)" by auto
  from interval_length [OF le d this] le
  show "int (length values) = sint mx - sint mn + 1" by (simp add: word_sle_eq)
next
  assume n: "int (length values) = sint mx - sint mn + 1"
  define I where "I = {v. mn <=s v \<and> v <=s mx}"
  have fin: "finite I" by simp
  then obtain ws where ws: "set ws = I" "distinct ws" using finite_distinct_list by blast
  then have "\<forall>v. (v \<in> set ws) = (mn <=s v \<and> v <=s mx)" by (auto simp: I_def)
  from interval_length [OF le ws(2) this]
  have "length ws = length values" using n le by (simp add: word_sle_eq)
  then have "card I = card (set values)" using ws d by (metis distinct_card)
  moreover have "set values \<subseteq> I" using b by (auto simp: I_def)
  ultimately have "set values = I" using fin by (metis card_subset_eq)
  then show "set values = {v. mn <=s v \<and> v <=s mx}" by (simp add: I_def)
qed

lemma tableSize_room: "1 < n \<Longrightarrow> n < tableSize n"
proof -
  assume n: "1 < n"
  then have "0 < n * 3" by arith
  from floorLog2_bounds [OF this] have "n * 3 < 2 * tableSize n" by (simp add: tableSize_def)
  then show ?thesis using n by arith
qed

section \<open>The size of the hash table\<close>

text \<open>
  The claim as the spec states it, that the table has at least \<open>3 * n\<close> slots, fails for
  two values: \<open>1u << (uint32_t)std::log2(6)\<close> is 4.
\<close>

theorem hashTable_size_counterexample:
  "(case BigintValuesUsingHashTable_ctor 0xdeadbeefbadefeed 0xc6a4a7935bd1e995 0 1000000
           [0, 1000000] False of
      Inl e \<Rightarrow> False
    | Inr f \<Rightarrow> length (hashTable f) = 4 \<and> length (hashTable f) < 3 * length [0, 1000000 :: int64])"
  by (simp add: BigintValuesUsingHashTable_ctor_def Let_def insertValue_length tableSize_def
        floorLog2.simps word_sless_alt)

text \<open>
  Claim C5 (amended): for every vector of \<open>n \<ge> 2\<close> values that is short enough for the
  32-bit size of the table to be defined, \<open>3 * n < 2^31\<close>, and every \<open>min < max\<close>, the
  constructor of BigintValuesUsingHashTable passes both of its checks and returns a filter
  whose table has the size \<open>2^k\<close> with \<open>k\<close> the integer part of \<open>log2 (3 * n)\<close>: the largest
  power of two that is at most \<open>3 * n\<close> (rounded down, not up). It is more than half of
  \<open>3 * n\<close>, and so has more slots than there are values.
\<close>

theorem hashTable_size:
  assumes "2 \<le> length values" "3 * length values < 2 ^ 31" "mn <s mx"
  shows "\<exists>f. BigintValuesUsingHashTable_ctor kE M mn mx values na = Inr f
         \<and> length (hashTable f) = 2 ^ floorLog2 (3 * length values)
         \<and> length (hashTable f) \<le> 3 * length values
         \<and> 3 * length values < 2 * length (hashTable f)
         \<and> length values < length (hashTable f)"
proof -
  have n: "1 < length values" using assms(1) by simp
  define st where "st = insertAll kE M (tableSize (length values))
                          (replicate (tableSize (length values)) kE, False) values"
  define f where "f = BigintValuesUsingHashTable mn mx (fst st) (snd st) na"
  have c: "BigintValuesUsingHashTable_ctor kE M mn mx values na = Inr f"
    unfolding f_def st_def by (rule HashTable_ctor_spec [OF assms(3) n assms(2)])
  have len: "length (hashTable f) = tableSize (length values)"
    unfolding f_def st_def by (simp add: insertAll_length)
  define S where "S = (2::nat) ^ floorLog2 (3 * length values)"
  have "0 < 3 * length values" using n by arith
  from floorLog2_bounds [OF this] have b: "S \<le> 3 * length values" "3 * length values < 2 * S"
    by (simp_all add: S_def)
  have lenS: "length (hashTable f) = S" by (simp add: len tableSize_def S_def mult.commute)
  have "length (hashTable f) = 2 ^ floorLog2 (3 * length values)
         \<and> length (hashTable f) \<le> 3 * length values
         \<and> 3 * length values < 2 * length (hashTable f)
         \<and> length values < length (hashTable f)"
    unfolding lenS using b n by (auto simp: S_def)
  with c show ?thesis by blast
qed

theorem hashTable_size_witness:
  "\<exists>f. BigintValuesUsingHashTable_ctor 0xdeadbeefbadefeed 0xc6a4a7935bd1e995 0 1000000
          [0, 1000000] False = Inr f
       \<and> length (hashTable f) = 4"
  using hashTable_size [of "[0, 1000000]" 0 1000000 "0xdeadbeefbadefeed" "0xc6a4a7935bd1e995" False]
  by (simp add: floorLog2.simps word_sless_alt) blast

section \<open>The factory createBigintValues\<close>

text \<open>
  The claim as the spec states it, that a vector of two or more values gets a BigintRange, a
  bitmask or a hash table, fails on two equal values: the bitmask constructor is chosen and
  its \<open>min < max\<close> check fails.
\<close>

theorem createBigintValues_counterexample:
  "createBigintValues 0xdeadbeefbadefeed 0xc6a4a7935bd1e995 [0, 0] False =
     Inl (CheckFailed ''min must be less than max'')"
  by (simp add: createBigintValues_def sub_overflow_def BigintValuesUsingBitmask_ctor_def)

text \<open>
  Claim C2 (amended): \<open>createBigintValues(values, nullAllowed)\<close> returns IsNull or
  AlwaysFalse for no value and \<open>BigintRange(v, v, nullAllowed)\<close> for the single value \<open>v\<close>.
  For two or more pairwise distinct values, fewer than \<open>2^31\<close> of them (the loop that finds
  the extremes counts in \<open>int\<close>), with \<open>mn\<close> and \<open>mx\<close> the signed extremes of the vector and
  \<open>range = mx - mn\<close> as an integer (overflow is \<open>range \<ge> 2^63\<close>): it returns
  \<open>BigintRange(mn, mx, nullAllowed)\<close> when there is no overflow and
  \<open>range + 1 = |values|\<close>, which holds exactly when the vector is contiguous, its values
  being all the integers from \<open>mn\<close> to \<open>mx\<close>; else, when there is no overflow and
  \<open>range < 32 * 64\<close> or \<open>range < |values| * 4 * 64\<close>, it returns the bitmask of the values;
  else it calls the constructor of the hash table, which returns the table built from the
  values when \<open>3 * |values| < 2^31\<close> and has no defined table size otherwise.
\<close>

theorem createBigintValues_spec:
  assumes len: "2 \<le> length values" "length values < 2 ^ 31"
      and d: "distinct values"
      and mn: "mn \<in> set values" "\<forall>v\<in>set values. mn <=s v"
      and mx: "mx \<in> set values" "\<forall>v\<in>set values. v <=s mx"
  shows "createBigintValues kE M values na =
     (let range = sint mx - sint mn in
      if range < 2 ^ 63 \<and> range + 1 = int (length values)
      then Inr (BigintRange (BRange mn mx na))
      else if range < 2 ^ 63 \<and> (range < 32 * 64 \<or> range < int (length values) * 4 * 64)
      then Inr (BigintValuesUsingBitmask mn mx
                  (map (\<lambda>i. i \<in> (\<lambda>v. unat (v - mn)) ` set values) [0..<nat range + 1]) na)
      else if 3 * length values < 2 ^ 31
      then Inr (BigintValuesUsingHashTable mn mx
                 (fst (insertAll kE M (tableSize (length values))
                        (replicate (tableSize (length values)) kE, False) values))
                 (snd (insertAll kE M (tableSize (length values))
                        (replicate (tableSize (length values)) kE, False) values)) na)
      else Inl (Undefined ''table size''))
     \<and> ((sint mx - sint mn < 2 ^ 63 \<and> sint mx - sint mn + 1 = int (length values))
          = (set values = {v. mn <=s v \<and> v <=s mx}))
     \<and> createBigintValues kE M [] na = Inr (if na then IsNull else AlwaysFalse)
     \<and> createBigintValues kE M [v] na = Inr (BigintRange (BRange v v na))"
proof -
  define range where "range = sint mx - sint mn"
  have ne: "values \<noteq> []" and l1: "length values \<noteq> 1" and l2: "1 < length values"
    using len(1) by auto
  have n64: "length values < 2 ^ 64"
  proof -
    have "(2 :: nat) ^ 31 \<le> 2 ^ 64" by simp
    with len(2) show ?thesis by (rule less_le_trans)
  qed
  have mm: "minMax (values ! 0) (values ! 0) (tl values) = (mn, mx)"
    by (rule minMax_values [OF ne mn mx])
  have le: "mn <=s mx" using mn(2) mx(1) by auto
  then have r0: "0 \<le> range" by (simp add: range_def word_sle_eq)
  have ovf: "sub_overflow mx mn = (\<not> range < 2 ^ 63)"
    using r0 by (auto simp: sub_overflow_def range_def)
  have u: "unat (mx - mn) = nat range" unfolding range_def by (rule unat_sub_signed [OF le])
  have all: "\<forall>v\<in>set values. mn <=s v \<and> v <=s mx" using mn(2) mx(2) by auto
  have diff: "mn \<noteq> mx" by (rule distinct_extremes_differ [OF d len(1) all])
  then have "sint mn \<noteq> sint mx" using sint_inject64 by blast
  then have lt: "mn <s mx" using le by (simp add: word_sle_eq word_sless_alt)
  have hash: "BigintValuesUsingHashTable_ctor kE M mn mx values na =
      (if 3 * length values < 2 ^ 31
       then Inr (BigintValuesUsingHashTable mn mx
                 (fst (insertAll kE M (tableSize (length values))
                        (replicate (tableSize (length values)) kE, False) values))
                 (snd (insertAll kE M (tableSize (length values))
                        (replicate (tableSize (length values)) kE, False) values)) na)
       else Inl (Undefined ''table size''))"
    using HashTable_ctor_spec [OF lt l2, of kE M na] HashTable_ctor_undefined [OF lt l2, of kE M na]
    by (cases "3 * length values < 2 ^ 31") simp_all
  have contig: "(range < 2 ^ 63 \<and> range + 1 = int (length values))
          = (set values = {v. mn <=s v \<and> v <=s mx})"
  proof -
    have "int (length values) < 2 ^ 63" using len(2) by simp
    then have "(range < 2 ^ 63 \<and> range + 1 = int (length values)) = (int (length values) = range + 1)"
      by auto
    then show ?thesis using contiguous_iff [OF d le all] by (simp add: range_def)
  qed
  have main: "createBigintValues kE M values na =
     (if range < 2 ^ 63 \<and> range + 1 = int (length values)
      then Inr (BigintRange (BRange mn mx na))
      else if range < 2 ^ 63 \<and> (range < 32 * 64 \<or> range < int (length values) * 4 * 64)
      then Inr (BigintValuesUsingBitmask mn mx
                  (map (\<lambda>i. i \<in> (\<lambda>v. unat (v - mn)) ` set values) [0..<nat range + 1]) na)
      else BigintValuesUsingHashTable_ctor kE M mn mx values na)"
  proof (cases "range < 2 ^ 63")
    case False
    then show ?thesis
      using ne l1 ovf by (simp add: createBigintValues_def mm range_def [symmetric])
  next
    case True
    have s: "sint (mx - mn) = range"
      unfolding range_def using True r0 by (intro sint_sub_no_overflow) (simp_all add: range_def)
    have "unat (mx - mn) + unat (1 :: 64 word) < 2 ^ LENGTH(64)" using u True r0 by simp
    then have "unat (mx - mn + 1) = unat (mx - mn) + unat (1 :: 64 word)" by (simp only: unat_add_lem)
    then have u1: "unat (mx - mn + 1) = nat range + 1" using u by simp
    have c1: "(mx - mn + 1 = of_nat (length values)) = (range + 1 = int (length values))"
    proof -
      have "(mx - mn + 1 = of_nat (length values)) =
            (unat (mx - mn + 1) = unat (of_nat (length values) :: 64 word))"
        by (simp add: word_unat_eq_iff)
      also have "\<dots> = (nat range + 1 = length values)" by (simp add: u1 unat_of_nat64 [OF n64])
      also have "\<dots> = (range + 1 = int (length values))" using r0 by auto
      finally show ?thesis .
    qed
    have c2: "(mx - mn <s 32 * 64) = (range < 32 * 64)" by (simp add: word_sless_alt s)
    have n256: "length values * 256 < 2 ^ 64" using len(2) by simp
    have c3: "(mx - mn < of_nat (length values) * 4 * 64) = (range < int (length values) * 4 * 64)"
    proof -
      have "(of_nat (length values) * 4 * 64 :: 64 word) = of_nat (length values * 256)" by simp
      then have "(mx - mn < of_nat (length values) * 4 * 64) = (nat range < length values * 256)"
        by (simp only: word_less_nat_alt u unat_of_nat64 [OF n256])
      also have "\<dots> = (range < int (length values) * 4 * 64)" using r0 by auto
      finally show ?thesis .
    qed
    have r63: "sint mx - sint mn < 2 ^ 63" using True by (simp add: range_def)
    show ?thesis
      using True ne l1 ovf c1 c2 c3
      by (simp add: createBigintValues_def mm range_def [symmetric] Let_def
          Bitmask_ctor_spec [OF lt l2 all r63])
  qed
  have e: "createBigintValues kE M [] na = Inr (if na then IsNull else AlwaysFalse)"
    by (simp add: createBigintValues_def nullOrFalse_def)
  have o: "createBigintValues kE M [v] na = Inr (BigintRange (BRange v v na))"
    by (simp add: createBigintValues_def)
  show ?thesis
    unfolding Let_def range_def [symmetric]
    using main hash contig e o by (simp only: simp_thms if_True if_False) 
qed

theorem createBigintValues_spec_witness:
  "createBigintValues 0xdeadbeefbadefeed 0xc6a4a7935bd1e995 [1, 3, 5, 7, 9] False =
     Inr (BigintValuesUsingBitmask 1 9 [True, False, True, False, True, False, True, False, True] False)
   \<and> createBigintValues 0xdeadbeefbadefeed 0xc6a4a7935bd1e995 [] False = Inr AlwaysFalse
   \<and> createBigintValues 0xdeadbeefbadefeed 0xc6a4a7935bd1e995 [4] False = Inr (BigintRange (BRange 4 4 False))"
  using createBigintValues_spec
    [of "[1, 3, 5, 7, 9]" 1 9 "0xdeadbeefbadefeed" "0xc6a4a7935bd1e995" False 4]
  by (simp add: upt_rec word_sle_eq)

section \<open>MultiRange and NaN\<close>

lemma anyFilter_iff: "anyFilter t fs v \<longleftrightarrow> (\<exists>f\<in>set fs. t f v)"
  by (induction fs) auto

text \<open>
  Claim C8: \<open>MultiRange::testDouble\<close> and \<open>MultiRange::testFloat\<close> return \<open>nanAllowed_\<close> on
  every NaN, whatever the children and their tests are; on every other input they return
  true exactly when the test of some child accepts the value.
\<close>

theorem MultiRange_test_nan:
  "MultiRange_testDouble t mr v =
     (if isnan_double v then nanAllowed mr else (\<exists>f\<in>set (filters mr). t f v))
   \<and> MultiRange_testFloat t' mr w =
     (if isnan_float w then nanAllowed mr else (\<exists>f\<in>set (filters mr). t' f w))"
  by (simp add: MultiRange_testDouble_def MultiRange_testFloat_def anyFilter_iff)

theorem MultiRange_test_nan_witness:
  "isnan_double 0x7FF8000000000000
   \<and> \<not> MultiRange_testDouble (\<lambda>f v. True) \<lparr>filters = [()], multiNullAllowed = False, nanAllowed = False\<rparr>
         0x7FF8000000000000
   \<and> isnan_float 0x7FC00000
   \<and> MultiRange_testFloat (\<lambda>f v. False) \<lparr>filters = [()], multiNullAllowed = False, nanAllowed = True\<rparr>
         0x7FC00000
   \<and> \<not> isnan_double 0x3FF0000000000000
   \<and> MultiRange_testDouble (\<lambda>f v. f = v) \<lparr>filters = [0, 0x3FF0000000000000], multiNullAllowed = False, nanAllowed = False\<rparr>
         0x3FF0000000000000"
  using MultiRange_test_nan [of "\<lambda>f v. True" "\<lparr>filters = [()], multiNullAllowed = False, nanAllowed = False\<rparr>"
          "0x7FF8000000000000" "\<lambda>f v. False" "0x7FC00000"]
        MultiRange_test_nan [of "\<lambda>f v. f = v" "\<lparr>filters = [0, 0x3FF0000000000000], multiNullAllowed = False, nanAllowed = False\<rparr>"
          "0x3FF0000000000000" "\<lambda>f v. False" "0"]
  by (simp add: isnan_double_def isnan_float_def MultiRange_testFloat_def)

section \<open>Range tests and pruning\<close>

text \<open>
  The range test of a bitmask never rejects a summary that covers a value or a null the
  filter accepts.
\<close>

lemma Bitmask_testInt64Range_sound:
  assumes "mn <=s v" "v <=s mx" "Bitmask_testInt64 this v"
  shows "Bitmask_testInt64Range this mn mx hasNull"
proof -
  have v: "\<not> v <s valuesMin this" "\<not> valuesMax this <s v"
    using assms(3) by (auto simp: Bitmask_testInt64_def split: if_splits)
  have "mn = mx \<Longrightarrow> v = mn" using assms(1,2) by (auto intro: sle_antisym)
  moreover have "\<not> (valuesMax this <s mn \<or> mx <s valuesMin this)"
    using v assms(1,2) by (simp add: word_sle_eq word_sless_alt)
  ultimately show ?thesis using assms(3) by (auto simp: Bitmask_testInt64Range_def)
qed

lemma Bitmask_testInt64Range_null:
  "nullAllowed this \<Longrightarrow> Bitmask_testInt64Range this mn mx True"
  by (simp add: Bitmask_testInt64Range_def)

text \<open>
  Claim C3 fails on the code: \<open>BytesRange::testBytesRange\<close> of the filter \<open>x \<le> "m"\<close> (no
  lower bound) rejects the summary with no minimum and the maximum \<open>"z"\<close>, which covers
  the value \<open>"a"\<close> that \<open>testBytes\<close> accepts: with \<open>lowerUnbounded_\<close> the function returns
  \<open>min.has_value() && compareRanges(min, upper_) < 0\<close>.
\<close>

theorem testBytesRange_false_negative:
  "inBytesSummary None (Some ''z'') ''a''
   \<and> testBytes \<lparr>lowerBytes = [], upperBytes = ''m'', lowerExclusive = False,
        upperExclusive = False, lowerUnbounded = True, upperUnbounded = False, singleValue = False,
        bytesNullAllowed = False\<rparr> ''a''
   \<and> \<not> testBytesRange \<lparr>lowerBytes = [], upperBytes = ''m'', lowerExclusive = False,
        upperExclusive = False, lowerUnbounded = True, upperUnbounded = False, singleValue = False,
        bytesNullAllowed = False\<rparr> None (Some ''z'') False"
  by (simp add: inBytesSummary_def testBytes_def testBytesRange_def compareRanges_def)

section \<open>The binary search of BigintMultiRange\<close>

lemma sorted_s_nth:
  assumes "sorted_wrt (\<lambda>a b. a <=s b) vs" "i \<le> j" "j < length vs"
  shows "vs ! i <=s vs ! j"
proof (cases "i = j")
  case True
  then show ?thesis by simp
next
  case False
  then have "i < j" using assms(2) by simp
  then show ?thesis using assms(1,3) by (simp add: sorted_wrt_iff_nth_less)
qed

lemma lower_bound_spec:
  assumes "sorted_wrt (\<lambda>a b. a <=s b) vs" "first + len \<le> length vs"
      and "\<forall>i<first. vs ! i <s v"
      and "\<forall>i. first + len \<le> i \<longrightarrow> i < length vs \<longrightarrow> \<not> vs ! i <s v"
  shows "first \<le> lower_bound vs first len v \<and> lower_bound vs first len v \<le> first + len \<and>
         (\<forall>i<lower_bound vs first len v. vs ! i <s v) \<and>
         (\<forall>i. lower_bound vs first len v \<le> i \<longrightarrow> i < length vs \<longrightarrow> \<not> vs ! i <s v)"
  using assms
proof (induction vs first len v rule: lower_bound.induct)
  case (1 vs first len v)
  show ?case
  proof (cases "len = 0")
    case True
    then show ?thesis using 1(3-6) by (simp add: lower_bound.simps)
  next
    case False
    define mid where "mid = first + len div 2"
    have midlt: "mid < first + len" "mid < length vs" using False 1(4) by (auto simp: mid_def)
    show ?thesis
    proof (cases "vs ! mid <s v")
      case True
      have eq: "lower_bound vs first len v = lower_bound vs (mid + 1) (len - len div 2 - 1) v"
        using False True by (subst lower_bound.simps) (simp add: mid_def)
      have below: "\<forall>i<mid + 1. vs ! i <s v"
      proof (intro allI impI)
        fix i assume "i < mid + 1"
        then have "vs ! i <=s vs ! mid" using 1(3) midlt by (intro sorted_s_nth) simp_all
        then show "vs ! i <s v" using True by (simp add: word_sle_eq word_sless_alt)
      qed
      have e: "mid + 1 + (len - len div 2 - 1) = first + len" using False by (simp add: mid_def)
      have "mid + 1 \<le> lower_bound vs (mid + 1) (len - len div 2 - 1) v \<and>
            lower_bound vs (mid + 1) (len - len div 2 - 1) v \<le> mid + 1 + (len - len div 2 - 1) \<and>
            (\<forall>i<lower_bound vs (mid + 1) (len - len div 2 - 1) v. vs ! i <s v) \<and>
            (\<forall>i. lower_bound vs (mid + 1) (len - len div 2 - 1) v \<le> i \<longrightarrow> i < length vs \<longrightarrow> \<not> vs ! i <s v)"
        using 1(1) [OF False] True 1(3) 1(4) 1(6) below unfolding mid_def [symmetric] e by simp
      then show ?thesis unfolding eq e by (auto simp: mid_def)
    next
      case F: False
      have eq: "lower_bound vs first len v = lower_bound vs first (len div 2) v"
        using False F by (subst lower_bound.simps) (simp add: mid_def)
      have above: "\<forall>i. first + len div 2 \<le> i \<longrightarrow> i < length vs \<longrightarrow> \<not> vs ! i <s v"
      proof (intro allI impI)
        fix i assume "first + len div 2 \<le> i" "i < length vs"
        then have "vs ! mid <=s vs ! i" using 1(3) by (intro sorted_s_nth) (simp_all add: mid_def)
        then show "\<not> vs ! i <s v" using F by (simp add: word_sle_eq word_sless_alt)
      qed
      have "first \<le> lower_bound vs first (len div 2) v \<and>
            lower_bound vs first (len div 2) v \<le> first + len div 2 \<and>
            (\<forall>i<lower_bound vs first (len div 2) v. vs ! i <s v) \<and>
            (\<forall>i. lower_bound vs first (len div 2) v \<le> i \<longrightarrow> i < length vs \<longrightarrow> \<not> vs ! i <s v)"
        using 1(2) [OF False] F 1(3) 1(4) 1(5) above midlt unfolding mid_def [symmetric] by simp
      then show ?thesis unfolding eq by auto
    qed
  qed
qed


lemma lower_bound_partition:
  assumes "sorted_wrt (\<lambda>a b. a <=s b) vs"
  shows "lower_bound vs 0 (length vs) v \<le> length vs \<and>
         (\<forall>i<lower_bound vs 0 (length vs) v. vs ! i <s v) \<and>
         (\<forall>i. lower_bound vs 0 (length vs) v \<le> i \<longrightarrow> i < length vs \<longrightarrow> \<not> vs ! i <s v)"
  using lower_bound_spec [OF assms, of 0 "length vs" v] by simp

lemma partition_filter_length:
  assumes "p \<le> length vs" "\<forall>i<p. P (vs ! i)" "\<forall>i. p \<le> i \<longrightarrow> i < length vs \<longrightarrow> \<not> P (vs ! i)"
  shows "length (filter P vs) = p"
proof -
  have a: "filter P (take p vs) = take p vs"
    using assms(1,2) by (auto simp: filter_id_conv in_set_conv_nth)
  have b: "filter P (drop p vs) = []"
    using assms(1,3) by (auto simp: filter_empty_conv in_set_conv_nth)
  have "filter P vs = filter P (take p vs @ drop p vs)" by simp
  also have "\<dots> = take p vs" unfolding filter_append a b by simp
  finally show ?thesis using assms(1) by simp
qed

lemma ctor_accepts:
  assumes "BigintMultiRange_ctor rs na = Inr f"
  shows "f = BigintMultiRange rs (map lower rs) na" "1 < length rs"
        "\<forall>i. 1 \<le> i \<longrightarrow> i < length rs \<longrightarrow> upper (rs ! (i - 1)) <=s lower (rs ! i)"
  using assms
  by (auto simp: BigintMultiRange_ctor_def Let_def list_all_iff split: if_splits)

lemma ranges_separated:
  assumes adj: "\<forall>i. 1 \<le> i \<longrightarrow> i < length rs \<longrightarrow> upper (rs ! (i - 1)) <=s lower (rs ! i)"
      and valid: "\<forall>r\<in>set rs. lower r <=s upper r"
  shows "i < j \<Longrightarrow> j < length rs \<Longrightarrow> upper (rs ! i) <=s lower (rs ! j)"
proof (induction j)
  case 0
  then show ?case by simp
next
  case (Suc j)
  have step: "upper (rs ! j) <=s lower (rs ! Suc j)" using adj Suc.prems(2) by force
  show ?case
  proof (cases "i = j")
    case True
    then show ?thesis using step by simp
  next
    case False
    then have "upper (rs ! i) <=s lower (rs ! j)" using Suc by simp
    moreover have "lower (rs ! j) <=s upper (rs ! j)" using valid Suc.prems(2) by simp
    ultimately show ?thesis using step by (simp add: word_sle_eq)
  qed
qed

lemma lowerBounds_sorted:
  assumes adj: "\<forall>i. 1 \<le> i \<longrightarrow> i < length rs \<longrightarrow> upper (rs ! (i - 1)) <=s lower (rs ! i)"
      and valid: "\<forall>r\<in>set rs. lower r <=s upper r"
  shows "sorted_wrt (\<lambda>a b. a <=s b) (map lower rs)"
  unfolding sorted_wrt_iff_nth_less
proof (intro allI impI)
  fix i j assume ij: "i < j" "j < length (map lower rs)"
  then have "upper (rs ! i) <=s lower (rs ! j)" using ranges_separated [OF adj valid] by simp
  moreover have "lower (rs ! i) <=s upper (rs ! i)" using valid ij by simp
  ultimately show "map lower rs ! i <=s map lower rs ! j" using ij by (simp add: word_sle_eq)
qed

lemma sless_le_neq: "(a <s b) = (a <=s b \<and> a \<noteq> (b :: 64 word))"
proof
  assume "a <s b"
  then show "a <=s b \<and> a \<noteq> b" by (auto simp: word_sle_eq word_sless_alt)
next
  assume h: "a <=s b \<and> a \<noteq> b"
  then have "sint a \<noteq> sint b" using sle_antisym [of a b] by (auto simp: word_sle_eq)
  then show "a <s b" using h by (simp add: word_sle_eq word_sless_alt)
qed

text \<open>
  Claim C6: for every BigintMultiRange that its constructor accepts (two or more children,
  each child's lower bound not below the upper bound of the child before it) and whose
  children are ranges with \<open>lower \<le> upper\<close>, and every \<open>v\<close>: \<open>testInt64(v)\<close> is true when \<open>v\<close>
  lies in some child and false when it lies in none. The search accepts when \<open>v\<close> is one of
  the lower bounds, rejects when the insertion position (the number of lower bounds below
  \<open>v\<close>) is 0, and otherwise gives the answer of the child before the insertion position.
\<close>

theorem BigintMultiRange_testInt64_search:
  assumes ctor: "BigintMultiRange_ctor rs na = Inr f"
      and valid: "\<forall>r\<in>set rs. lower r <=s upper r"
  shows "testInt64 kE M f v = (\<exists>c\<in>set rs. BigintRange_testInt64 c v)
         \<and> testInt64 kE M f v =
             (let place = length (filter (\<lambda>b. b <s v) (lowerBounds f)) in
              if v \<in> set (lowerBounds f) then True
              else if place = 0 then False
              else BigintRange_testInt64 (ranges f ! (place - 1)) v)"
proof -
  define lbs where "lbs = map lower rs"
  define p where "p = lower_bound lbs 0 (length lbs) v"
  note acc = ctor_accepts [OF ctor]
  have n: "length lbs = length rs" by (simp add: lbs_def)
  have srt: "sorted_wrt (\<lambda>a b. a <=s b) lbs"
    unfolding lbs_def by (rule lowerBounds_sorted [OF acc(3) valid])
  have sep: "i < j \<Longrightarrow> j < length rs \<Longrightarrow> upper (rs ! i) <=s lower (rs ! j)" for i j
    by (rule ranges_separated [OF acc(3) valid])
  from lower_bound_partition [OF srt, of v]
  have pn: "p \<le> length rs"
    and below: "\<And>i. i < p \<Longrightarrow> lbs ! i <s v"
    and above: "\<And>i. p \<le> i \<Longrightarrow> i < length rs \<Longrightarrow> \<not> lbs ! i <s v"
    by (simp_all add: p_def n)
  have place: "length (filter (\<lambda>b. b <s v) lbs) = p"
    by (rule partition_filter_length) (use pn below above n in auto)
  have hit: "(\<not> (p = length lbs \<or> lbs ! p \<noteq> v)) = (v \<in> set lbs)"
  proof
    assume "\<not> (p = length lbs \<or> lbs ! p \<noteq> v)"
    then have "p < length lbs" "lbs ! p = v" using pn n by auto
    then show "v \<in> set lbs" by (auto simp: in_set_conv_nth)
  next
    assume "v \<in> set lbs"
    then obtain j where j: "j < length lbs" "lbs ! j = v" by (auto simp: in_set_conv_nth)
    have "\<not> j < p" using below [of j] j(2) by auto
    then have pj: "p \<le> j" by simp
    then have "lbs ! p <=s lbs ! j" using srt j(1) by (intro sorted_s_nth) simp_all
    moreover have "\<not> lbs ! p <s v" using above [of p] pj j(1) n by simp
    ultimately have "lbs ! p = v" using j(2) by (intro sle_antisym) (simp_all add: word_sle_eq word_sless_alt)
    then show "\<not> (p = length lbs \<or> lbs ! p \<noteq> v)" using pj j(1) by simp
  qed
  have bs: "binarySearch lbs v = (if v \<in> set lbs then int p else - int p - 1)"
    using hit by (auto simp: binarySearch_def Let_def p_def [symmetric])
  have route: "testInt64 kE M f v =
      (if v \<in> set lbs then True else if p = 0 then False
       else BigintRange_testInt64 (rs ! (p - 1)) v)"
    by (simp add: acc(1) BigintMultiRange_testInt64_def lbs_def [symmetric] bs Let_def nat_diff_distrib')
  have sem: "(\<exists>c\<in>set rs. BigintRange_testInt64 c v) =
      (if v \<in> set lbs then True else if p = 0 then False
       else BigintRange_testInt64 (rs ! (p - 1)) v)"
  proof (cases "v \<in> set lbs")
    case True
    then obtain j where j: "j < length rs" "lower (rs ! j) = v"
      by (auto simp: lbs_def in_set_conv_nth)
    then have "BigintRange_testInt64 (rs ! j) v"
      using valid by (auto simp: BigintRange_testInt64_def)
    then show ?thesis using True j(1) by auto
  next
    case False
    have inside: "j = p - 1 \<and> 0 < p" if j: "j < length rs" "BigintRange_testInt64 (rs ! j) v" for j
    proof -
      have lo: "lower (rs ! j) <=s v" and hi: "v <=s upper (rs ! j)"
        using j(2) by (simp_all add: BigintRange_testInt64_def)
      have "lower (rs ! j) \<noteq> v" using False j(1) by (auto simp: lbs_def)
      then have "lbs ! j <s v"
        using lo j(1) by (simp add: lbs_def sless_le_neq)
      then have jp: "j < p" using above [of j] j(1) by (cases "j < p") auto
      have "\<not> j < p - 1"
      proof
        assume "j < p - 1"
        then have "upper (rs ! j) <=s lower (rs ! (p - 1))" using sep [of j "p - 1"] pn by simp
        moreover have "lbs ! (p - 1) <s v" using below [of "p - 1"] jp by simp
        ultimately show False using hi pn jp by (simp add: lbs_def word_sle_eq word_sless_alt)
      qed
      then show ?thesis using jp by simp
    qed
    show ?thesis
    proof (cases "p = 0")
      case True
      then show ?thesis using False inside by (auto simp: in_set_conv_nth)
    next
      case p: False
      have "(\<exists>c\<in>set rs. BigintRange_testInt64 c v) = BigintRange_testInt64 (rs ! (p - 1)) v"
      proof
        assume "\<exists>c\<in>set rs. BigintRange_testInt64 c v"
        then obtain j where "j < length rs" "BigintRange_testInt64 (rs ! j) v"
          by (auto simp: in_set_conv_nth)
        then show "BigintRange_testInt64 (rs ! (p - 1)) v" using inside by auto
      next
        assume "BigintRange_testInt64 (rs ! (p - 1)) v"
        moreover have "rs ! (p - 1) \<in> set rs" using p pn by simp
        ultimately show "\<exists>c\<in>set rs. BigintRange_testInt64 c v" by blast
      qed
      then show ?thesis using False p by simp
    qed
  qed
  have f: "lowerBounds f = lbs" "ranges f = rs" by (simp_all add: acc(1) lbs_def)
  show ?thesis unfolding f Let_def place using route sem by simp
qed

theorem BigintMultiRange_testInt64_search_witness:
  "BigintMultiRange_ctor [BRange 1 3 False, BRange 10 20 False] True =
     Inr (BigintMultiRange [BRange 1 3 False, BRange 10 20 False] [1, 10] True)
   \<and> testInt64 0xdeadbeefbadefeed 0xc6a4a7935bd1e995
        (BigintMultiRange [BRange 1 3 False, BRange 10 20 False] [1, 10] True) 2
   \<and> testInt64 0xdeadbeefbadefeed 0xc6a4a7935bd1e995
        (BigintMultiRange [BRange 1 3 False, BRange 10 20 False] [1, 10] True) 10
   \<and> \<not> testInt64 0xdeadbeefbadefeed 0xc6a4a7935bd1e995
        (BigintMultiRange [BRange 1 3 False, BRange 10 20 False] [1, 10] True) 5
   \<and> \<not> testInt64 0xdeadbeefbadefeed 0xc6a4a7935bd1e995
        (BigintMultiRange [BRange 1 3 False, BRange 10 20 False] [1, 10] True) 0"
proof -
  have c: "BigintMultiRange_ctor [BRange 1 3 False, BRange 10 20 False] True =
     Inr (BigintMultiRange [BRange 1 3 False, BRange 10 20 False] [1, 10] True)"
    by (simp add: BigintMultiRange_ctor_def upt_rec word_sle_eq)
  have v: "\<forall>r\<in>set [BRange 1 3 False, BRange 10 20 False]. lower r <=s upper r"
    by (simp add: word_sle_eq)
  note t = BigintMultiRange_testInt64_search [OF c v, of "0xdeadbeefbadefeed" "0xc6a4a7935bd1e995"]
  show ?thesis
    using c t [of 2] t [of 10] t [of 5] t [of 0]
    by (simp add: BigintRange_testInt64_def word_sle_eq)
qed

section \<open>The hash table is an exact membership structure\<close>

lemma and_pow2_minus1: "(i::nat) AND (2 ^ k - Suc 0) = i mod 2 ^ k"
proof -
  have "(2::nat) ^ k - Suc 0 = mask k" by (simp add: mask_eq_exp_minus_1)
  then have "i AND (2 ^ k - Suc 0) = take_bit k i" by (simp only: take_bit_eq_mask)
  then show ?thesis by (simp only: take_bit_eq_mod)
qed

lemma residues_cover:
  assumes "j < (sz::nat)"
  shows "\<exists>d< sz. (h + d) mod sz = j"
proof -
  define d where "d = (j + (sz - h mod sz)) mod sz"
  have sz: "0 < sz" using assms by simp
  have "d < sz" using sz by (simp add: d_def)
  moreover have "(h + d) mod sz = j"
  proof -
    have "(h + d) mod sz = (h mod sz + (j + (sz - h mod sz))) mod sz"
      unfolding d_def by (metis mod_add_eq mod_mod_trivial)
    also have "h mod sz + (j + (sz - h mod sz)) = j + sz"
      using mod_less_divisor [OF sz, of h] by simp
    also have "(j + sz) mod sz = j" using assms by simp
    finally show ?thesis .
  qed
  ultimately show ?thesis by blast
qed

lemma insertProbe_Some:
  assumes "sz = 2 ^ k"
  shows "insertProbe kE t sz v i n = Some t' \<Longrightarrow>
         \<exists>d<n. t' = t[(i + d) mod sz := v] \<and> t ! ((i + d) mod sz) = kE \<and>
               (\<forall>e<d. t ! ((i + e) mod sz) \<noteq> kE)"
proof (induction n arbitrary: i)
  case 0
  then show ?case by simp
next
  case (Suc n)
  show ?case
  proof (cases "t ! (i mod sz) = kE")
    case True
    then have "t' = t[i mod sz := v]"
      using Suc.prems by (simp add: assms and_pow2_minus1)
    then show ?thesis using True by (intro exI [of _ 0]) simp
  next
    case False
    then have "insertProbe kE t sz v (i + 1) n = Some t'"
      using Suc.prems by (simp add: assms and_pow2_minus1)
    from Suc.IH [OF this] obtain d where d: "d < n" "t' = t[(i + 1 + d) mod sz := v]"
      "t ! ((i + 1 + d) mod sz) = kE" "\<forall>e<d. t ! ((i + 1 + e) mod sz) \<noteq> kE" by blast
    have "\<forall>e<Suc d. t ! ((i + e) mod sz) \<noteq> kE"
    proof (intro allI impI)
      fix e assume "e < Suc d"
      then show "t ! ((i + e) mod sz) \<noteq> kE"
        using False d(4) by (cases e) auto
    qed
    then show ?thesis using d(1-3) by (intro exI [of _ "Suc d"]) simp
  qed
qed

lemma insertProbe_None:
  assumes "sz = 2 ^ k"
  shows "insertProbe kE t sz v i n = None \<Longrightarrow> \<forall>d<n. t ! ((i + d) mod sz) \<noteq> kE"
proof (induction n arbitrary: i)
  case 0
  then show ?case by simp
next
  case (Suc n)
  have a: "t ! (i mod sz) \<noteq> kE" and b: "insertProbe kE t sz v (i + 1) n = None"
    using Suc.prems by (auto simp: assms and_pow2_minus1 Let_def split: if_splits)
  show ?case
  proof (intro allI impI)
    fix d assume "d < Suc n"
    then show "t ! ((i + d) mod sz) \<noteq> kE"
      using a Suc.IH [OF b] by (cases d) auto
  qed
qed

lemma lookupProbe_Hit:
  assumes "sz = 2 ^ k"
  shows "(lookupProbe kE t sz v i n = Hit) =
         (\<exists>d<n. t ! ((i + d) mod sz) = v \<and> v \<noteq> kE \<and>
               (\<forall>e<d. t ! ((i + e) mod sz) \<noteq> kE \<and> t ! ((i + e) mod sz) \<noteq> v))"
proof (induction n arbitrary: i)
  case 0
  then show ?case by simp
next
  case (Suc n)
  show ?case
  proof (cases "t ! (i mod sz) = kE \<or> t ! (i mod sz) = v")
    case True
    have "(\<exists>d<Suc n. t ! ((i + d) mod sz) = v \<and> v \<noteq> kE \<and>
               (\<forall>e<d. t ! ((i + e) mod sz) \<noteq> kE \<and> t ! ((i + e) mod sz) \<noteq> v)) =
          (t ! (i mod sz) = v \<and> v \<noteq> kE)"
    proof
      assume "\<exists>d<Suc n. t ! ((i + d) mod sz) = v \<and> v \<noteq> kE \<and>
               (\<forall>e<d. t ! ((i + e) mod sz) \<noteq> kE \<and> t ! ((i + e) mod sz) \<noteq> v)"
      then obtain d where d: "t ! ((i + d) mod sz) = v" "v \<noteq> kE"
        "\<forall>e<d. t ! ((i + e) mod sz) \<noteq> kE \<and> t ! ((i + e) mod sz) \<noteq> v" by blast
      have "d = 0" using True d(3) by (cases d) auto
      then show "t ! (i mod sz) = v \<and> v \<noteq> kE" using d by simp
    next
      assume "t ! (i mod sz) = v \<and> v \<noteq> kE"
      then show "\<exists>d<Suc n. t ! ((i + d) mod sz) = v \<and> v \<noteq> kE \<and>
               (\<forall>e<d. t ! ((i + e) mod sz) \<noteq> kE \<and> t ! ((i + e) mod sz) \<noteq> v)"
        by (intro exI [of _ 0]) simp
    qed
    then show ?thesis using True by (auto simp: assms and_pow2_minus1 Let_def)
  next
    case False
    then have "(lookupProbe kE t sz v i (Suc n) = Hit) = (lookupProbe kE t sz v (i + 1) n = Hit)"
      by (simp add: assms and_pow2_minus1 Let_def)
    also have "\<dots> = (\<exists>d<n. t ! ((i + 1 + d) mod sz) = v \<and> v \<noteq> kE \<and>
               (\<forall>e<d. t ! ((i + 1 + e) mod sz) \<noteq> kE \<and> t ! ((i + 1 + e) mod sz) \<noteq> v))"
      by (rule Suc.IH)
    also have "\<dots> = (\<exists>d<Suc n. t ! ((i + d) mod sz) = v \<and> v \<noteq> kE \<and>
               (\<forall>e<d. t ! ((i + e) mod sz) \<noteq> kE \<and> t ! ((i + e) mod sz) \<noteq> v))"
    proof
      assume "\<exists>d<n. t ! ((i + 1 + d) mod sz) = v \<and> v \<noteq> kE \<and>
               (\<forall>e<d. t ! ((i + 1 + e) mod sz) \<noteq> kE \<and> t ! ((i + 1 + e) mod sz) \<noteq> v)"
      then obtain d where d: "d < n" "t ! ((i + 1 + d) mod sz) = v" "v \<noteq> kE"
        "\<forall>e<d. t ! ((i + 1 + e) mod sz) \<noteq> kE \<and> t ! ((i + 1 + e) mod sz) \<noteq> v" by blast
      have "\<forall>e<Suc d. t ! ((i + e) mod sz) \<noteq> kE \<and> t ! ((i + e) mod sz) \<noteq> v"
      proof (intro allI impI)
        fix e assume "e < Suc d"
        then show "t ! ((i + e) mod sz) \<noteq> kE \<and> t ! ((i + e) mod sz) \<noteq> v"
          using False d(4) by (cases e) auto
      qed
      then show "\<exists>d<Suc n. t ! ((i + d) mod sz) = v \<and> v \<noteq> kE \<and>
               (\<forall>e<d. t ! ((i + e) mod sz) \<noteq> kE \<and> t ! ((i + e) mod sz) \<noteq> v)"
        using d(1-3) by (intro exI [of _ "Suc d"]) simp
    next
      assume "\<exists>d<Suc n. t ! ((i + d) mod sz) = v \<and> v \<noteq> kE \<and>
               (\<forall>e<d. t ! ((i + e) mod sz) \<noteq> kE \<and> t ! ((i + e) mod sz) \<noteq> v)"
      then obtain d where d: "d < Suc n" "t ! ((i + d) mod sz) = v" "v \<noteq> kE"
        "\<forall>e<d. t ! ((i + e) mod sz) \<noteq> kE \<and> t ! ((i + e) mod sz) \<noteq> v" by blast
      have "d \<noteq> 0" using False d(2) by (cases d) auto
      then obtain d' where d': "d = Suc d'" by (cases d) auto
      have "\<forall>e<d'. t ! ((i + 1 + e) mod sz) \<noteq> kE \<and> t ! ((i + 1 + e) mod sz) \<noteq> v"
        using d(4) d' by auto
      then show "\<exists>d<n. t ! ((i + 1 + d) mod sz) = v \<and> v \<noteq> kE \<and>
               (\<forall>e<d. t ! ((i + 1 + e) mod sz) \<noteq> kE \<and> t ! ((i + 1 + e) mod sz) \<noteq> v)"
        using d(1-3) d' by (intro exI [of _ d']) simp
    qed
    finally show ?thesis .
  qed
qed

lemma lookupProbe_Exhausted:
  assumes "sz = 2 ^ k"
  shows "lookupProbe kE t sz v i n = Exhausted \<Longrightarrow> \<forall>d<n. t ! ((i + d) mod sz) \<noteq> kE"
proof (induction n arbitrary: i)
  case 0
  then show ?case by simp
next
  case (Suc n)
  have a: "t ! (i mod sz) \<noteq> kE" and b: "lookupProbe kE t sz v (i + 1) n = Exhausted"
    using Suc.prems by (auto simp: assms and_pow2_minus1 Let_def split: if_splits)
  show ?case
  proof (intro allI impI)
    fix d assume "d < Suc n"
    then show "t ! ((i + d) mod sz) \<noteq> kE"
      using a Suc.IH [OF b] by (cases d) auto
  qed
qed

lemma update_empty_slot:
  assumes "j < length t" "t ! j = kE" "v \<noteq> kE"
  shows "filter (\<lambda>x. x \<noteq> kE) (t[j := v]) =
           filter (\<lambda>x. x \<noteq> kE) (take j t) @ v # filter (\<lambda>x. x \<noteq> kE) (drop (Suc j) t)"
    and "filter (\<lambda>x. x \<noteq> kE) t =
           filter (\<lambda>x. x \<noteq> kE) (take j t) @ filter (\<lambda>x. x \<noteq> kE) (drop (Suc j) t)"
    and "length (filter (\<lambda>x. x = kE) t) = Suc (length (filter (\<lambda>x. x = kE) (t[j := v])))"
proof -
  have u: "t[j := v] = take j t @ v # drop (Suc j) t"
    using assms(1) by (rule upd_conv_take_nth_drop)
  have o: "t = take j t @ kE # drop (Suc j) t"
    using assms(1,2) id_take_nth_drop [of j t] by simp
  show "filter (\<lambda>x. x \<noteq> kE) (t[j := v]) =
           filter (\<lambda>x. x \<noteq> kE) (take j t) @ v # filter (\<lambda>x. x \<noteq> kE) (drop (Suc j) t)"
    unfolding u using assms(3) by simp
  have "filter (\<lambda>x. x \<noteq> kE) (take j t @ kE # drop (Suc j) t) =
           filter (\<lambda>x. x \<noteq> kE) (take j t) @ filter (\<lambda>x. x \<noteq> kE) (drop (Suc j) t)"
    by simp
  then show "filter (\<lambda>x. x \<noteq> kE) t =
           filter (\<lambda>x. x \<noteq> kE) (take j t) @ filter (\<lambda>x. x \<noteq> kE) (drop (Suc j) t)"
    using o by simp
  have "length (filter (\<lambda>x. x = kE) (take j t @ kE # drop (Suc j) t)) =
        Suc (length (filter (\<lambda>x. x = kE) (take j t @ v # drop (Suc j) t)))"
    using assms(3) by simp
  then show "length (filter (\<lambda>x. x = kE) t) = Suc (length (filter (\<lambda>x. x = kE) (t[j := v])))"
    using o u by simp
qed

lemma set_filter_neq: "set (filter (\<lambda>x. x \<noteq> kE) t) = set t - {kE}"
  by auto

lemma insertValue_inv:
  assumes sz: "sz = 2 ^ k"
      and inv: "tableInv kE M sz t vs"
      and room: "length vs < sz"
  shows "tableInv kE M sz (fst (insertValue kE M sz (t, c) v)) (vs @ [v])
         \<and> snd (insertValue kE M sz (t, c) v) = (c \<or> v = kE)
         \<and> (v = kE \<or> insertProbe kE t sz v (hashPosition M sz v) sz \<noteq> None)"
proof (cases "v = kE")
  case True
  have "distinct (vs @ [v]) \<longrightarrow> distinct vs" by simp
  then show ?thesis using inv True by (auto simp: insertValue_def tableInv_def)
next
  case False
  define h where "h = hashPosition M sz v"
  have len: "length t = sz" using inv by (simp add: tableInv_def)
  have notNone: "insertProbe kE t sz v h sz \<noteq> None"
  proof
    assume "insertProbe kE t sz v h sz = None"
    from insertProbe_None [OF sz this] have full: "\<forall>d < sz. t ! ((h + d) mod sz) \<noteq> kE" .
    have "\<forall>x\<in>set t. x \<noteq> kE"
    proof
      fix x assume "x \<in> set t"
      then obtain j where j: "j < sz" "t ! j = x" using len by (auto simp: in_set_conv_nth)
      from residues_cover [OF j(1), of h] obtain d where "d < sz" "(h + d) mod sz = j" by blast
      then show "x \<noteq> kE" using full j(2) by auto
    qed
    then have "filter (\<lambda>x. x = kE) t = []" by (auto simp: filter_empty_conv)
    then show False using inv room by (simp add: tableInv_def)
  qed
  then obtain t' where t': "insertProbe kE t sz v h sz = Some t'" by auto
  from insertProbe_Some [OF sz t'] obtain d where d: "d < sz" "t' = t[(h + d) mod sz := v]"
    "t ! ((h + d) mod sz) = kE" "\<forall>e<d. t ! ((h + e) mod sz) \<noteq> kE" by blast
  define j where "j = (h + d) mod sz"
  have jlt: "j < length t" using d(1) len by (simp add: j_def)
  have tj: "t ! j = kE" using d(3) by (simp add: j_def)
  have t'u: "t' = t[j := v]" using d(2) by (simp add: j_def)
  note upd = update_empty_slot [OF jlt tj False]
  have s1: "set t' - {kE} = insert v (set t - {kE})"
  proof -
    have "set t' - {kE} = set (filter (\<lambda>x. x \<noteq> kE) t')" by (simp only: set_filter_neq)
    also have "\<dots> = insert v (set (filter (\<lambda>x. x \<noteq> kE) t))"
      unfolding t'u upd(1) by (subst upd(2)) auto
    finally show ?thesis by (simp only: set_filter_neq)
  qed
  have i1: "length t' = sz" using len by (simp add: t'u)
  have i2: "set t' - {kE} = set (vs @ [v]) - {kE}"
    using s1 inv False by (auto simp: tableInv_def)
  have i3: "sz \<le> length (filter (\<lambda>x. x = kE) t') + length (vs @ [v])"
    using inv upd(3) by (simp add: tableInv_def t'u)
  have nth': "t' ! i = (if i = j then v else t ! i)" if "i < sz" for i
    using that len by (simp add: t'u nth_list_update)
  have i4: "\<forall>x\<in>set t'. x \<noteq> kE \<longrightarrow> probeOk kE sz (hashPosition M sz x) t' x"
  proof (intro ballI impI)
    fix x assume x: "x \<in> set t'" "x \<noteq> kE"
    have szpos: "0 < sz" using d(1) by simp
    show "probeOk kE sz (hashPosition M sz x) t' x"
    proof (cases "x \<in> set t")
      case True
      then have "probeOk kE sz (hashPosition M sz x) t x" using inv x(2) by (simp add: tableInv_def)
      then obtain dx where dx: "dx < sz" "t ! ((hashPosition M sz x + dx) mod sz) = x"
        "\<forall>e<dx. t ! ((hashPosition M sz x + e) mod sz) \<noteq> kE"
        by (auto simp: probeOk_def)
      have a: "t' ! ((hashPosition M sz x + dx) mod sz) = x"
        using dx(2) tj x(2) szpos by (auto simp: nth')
      have b: "\<forall>e<dx. t' ! ((hashPosition M sz x + e) mod sz) \<noteq> kE"
        using dx(3) False szpos by (auto simp: nth')
      show ?thesis unfolding probeOk_def using dx(1) a b by blast
    next
      case F: False
      then have xv: "x = v" using x s1 by auto
      have a: "t' ! ((h + d) mod sz) = v" using szpos by (simp add: nth' j_def)
      have b: "\<forall>e<d. t' ! ((h + e) mod sz) \<noteq> kE"
        using d(4) False szpos by (auto simp: nth')
      show ?thesis unfolding probeOk_def xv h_def [symmetric] using d(1) a b by blast
    qed
  qed
  have i5: "distinct (vs @ [v]) \<longrightarrow> distinct (filter (\<lambda>x. x \<noteq> kE) t')"
  proof
    assume dv: "distinct (vs @ [v])"
    then have "distinct (filter (\<lambda>x. x \<noteq> kE) t)" using inv by (simp add: tableInv_def)
    then have dd: "distinct (filter (\<lambda>x. x \<noteq> kE) (take j t) @ filter (\<lambda>x. x \<noteq> kE) (drop (Suc j) t))"
      by (simp only: upd(2) [symmetric])
    have "v \<notin> set vs" using dv by simp
    then have "v \<notin> set t - {kE}" using inv by (simp add: tableInv_def)
    then have "v \<notin> set (filter (\<lambda>x. x \<noteq> kE) t)" by auto
    then have "v \<notin> set (filter (\<lambda>x. x \<noteq> kE) (take j t) @ filter (\<lambda>x. x \<noteq> kE) (drop (Suc j) t))"
      by (metis upd(2))
    then show "distinct (filter (\<lambda>x. x \<noteq> kE) t')"
      unfolding t'u upd(1) using dd by auto
  qed
  have res: "insertValue kE M sz (t, c) v = (t', c)"
    using False t' by (simp add: insertValue_def h_def)
  show ?thesis
    unfolding res using False notNone i1 i2 i3 i4 i5 by (simp add: tableInv_def h_def)
qed

lemma insertAll_inv:
  assumes sz: "sz = 2 ^ k"
  shows "tableInv kE M sz t vs0 \<Longrightarrow> length vs0 + length vs < sz \<Longrightarrow>
         tableInv kE M sz (fst (insertAll kE M sz (t, c) vs)) (vs0 @ vs)
         \<and> snd (insertAll kE M sz (t, c) vs) = (c \<or> kE \<in> set vs)
         \<and> insertsFindSlot kE M sz (t, c) vs"
proof (induction vs arbitrary: t c vs0)
  case Nil
  then show ?case by simp
next
  case (Cons v vs)
  have room: "length vs0 < sz" using Cons.prems(2) by simp
  note step = insertValue_inv [OF sz Cons.prems(1) room, of c v]
  obtain t' c' where st: "insertValue kE M sz (t, c) v = (t', c')"
    by (cases "insertValue kE M sz (t, c) v") auto
  have inv': "tableInv kE M sz t' (vs0 @ [v])" and c': "c' = (c \<or> v = kE)"
    using step by (simp_all add: st)
  have "length (vs0 @ [v]) + length vs < sz" using Cons.prems(2) by simp
  from Cons.IH [OF inv' this, of c']
  show ?case using step c' by (auto simp: st)
qed

lemma empty_table_inv: "tableInv kE M sz (replicate sz kE) []"
  by (auto simp: tableInv_def)

lemma lookup_not_exhausted:
  assumes sz: "sz = 2 ^ k" and inv: "tableInv kE M sz t vs" and room: "length vs < sz"
  shows "lookupProbe kE t sz v h sz \<noteq> Exhausted"
proof
  assume "lookupProbe kE t sz v h sz = Exhausted"
  from lookupProbe_Exhausted [OF sz this] have full: "\<forall>d < sz. t ! ((h + d) mod sz) \<noteq> kE" .
  have len: "length t = sz" using inv by (simp add: tableInv_def)
  have "filter (\<lambda>x. x = kE) t \<noteq> []" using inv room by (auto simp: tableInv_def)
  then have "kE \<in> set t" by (auto simp: filter_empty_conv)
  then obtain j where j: "j < sz" "t ! j = kE" using len by (auto simp: in_set_conv_nth)
  from residues_cover [OF j(1), of h] obtain d where "d < sz" "(h + d) mod sz = j" by blast
  then show False using full j(2) by auto
qed

lemma lookup_hit_iff:
  assumes sz: "sz = 2 ^ k" and inv: "tableInv kE M sz t vs" and pos: "0 < sz"
  shows "(lookupProbe kE t sz v (hashPosition M sz v) sz = Hit) = (v \<in> set vs \<and> v \<noteq> kE)"
proof
  define h where "h = hashPosition M sz v"
  have len: "length t = sz" using inv by (simp add: tableInv_def)
  {
    assume "lookupProbe kE t sz v (hashPosition M sz v) sz = Hit"
    then obtain d where d: "d < sz" "t ! ((h + d) mod sz) = v" "v \<noteq> kE"
      unfolding lookupProbe_Hit [OF sz] h_def by blast
    have "(h + d) mod sz < length t" using pos len by simp
    then have "v \<in> set t" using d(2) by (auto simp: in_set_conv_nth)
    then have "v \<in> set vs" using inv d(3) by (auto simp: tableInv_def)
    then show "v \<in> set vs \<and> v \<noteq> kE" using d(3) by simp
  }
  {
    assume a: "v \<in> set vs \<and> v \<noteq> kE"
    then have "v \<in> set t" using inv by (auto simp: tableInv_def)
    then have "probeOk kE sz h t v" using inv a by (simp add: tableInv_def h_def)
    then obtain d where d: "d < sz" "t ! ((h + d) mod sz) = v"
      "\<forall>e<d. t ! ((h + e) mod sz) \<noteq> kE" by (auto simp: probeOk_def)
    define d' where "d' = (LEAST x. t ! ((h + x) mod sz) = v)"
    have l1: "t ! ((h + d') mod sz) = v" unfolding d'_def using d(2) by (rule LeastI)
    have l2: "d' \<le> d" unfolding d'_def using d(2) by (rule Least_le)
    have l3: "\<forall>e<d'. t ! ((h + e) mod sz) \<noteq> v"
      unfolding d'_def using not_less_Least by blast
    have "\<forall>e<d'. t ! ((h + e) mod sz) \<noteq> kE \<and> t ! ((h + e) mod sz) \<noteq> v"
      using l2 l3 d(3) by auto
    moreover have "d' < sz" using l2 d(1) by simp
    ultimately show "lookupProbe kE t sz v (hashPosition M sz v) sz = Hit"
      unfolding lookupProbe_Hit [OF sz] h_def [symmetric] using l1 a by blast
  }
qed

text \<open>
  Claim C10 (amended): for every vector of at least two values that is short enough for
  the 32-bit size of the table to be defined, \<open>3 * n < 2^31\<close>, with \<open>min < max\<close> and every
  value between \<open>min\<close> and \<open>max\<close> (as they are when \<open>min\<close> and \<open>max\<close> are the extremes of
  the vector), the constructor of BigintValuesUsingHashTable returns a filter whose table
  has more slots than there are values; every insertion probe finds an empty slot, so no
  value is dropped; every probe of \<open>testInt64\<close> ends at an empty slot or at a hit; and
  \<open>testInt64(v)\<close> is true exactly for the values of the vector, \<open>kEmptyMarker\<close> included,
  which \<open>containsEmptyMarker_\<close> records. (The values need not be distinct.)
\<close>

theorem hashTable_exact:
  assumes len: "2 \<le> length values" "3 * length values < 2 ^ 31"
      and lt: "mn <s mx"
      and bounds: "\<forall>v\<in>set values. mn <=s v \<and> v <=s mx"
  shows "\<exists>f. BigintValuesUsingHashTable_ctor kE M mn mx values na = Inr f
           \<and> length values < length (hashTable f)
           \<and> insertsFindSlot kE M (length (hashTable f))
                 (replicate (length (hashTable f)) kE, False) values
           \<and> containsEmptyMarker f = (kE \<in> set values)
           \<and> (\<forall>v. lookupProbe kE (hashTable f) (length (hashTable f)) v
                      (hashPosition M (length (hashTable f)) v) (length (hashTable f)) \<noteq> Exhausted)
           \<and> (\<forall>v. testInt64 kE M f v = (v \<in> set values))"
proof -
  define sz where "sz = tableSize (length values)"
  define st where "st = insertAll kE M sz (replicate sz kE, False) values"
  define f where "f = BigintValuesUsingHashTable mn mx (fst st) (snd st) na"
  have l2: "1 < length values" using len(1) by simp
  have ctor: "BigintValuesUsingHashTable_ctor kE M mn mx values na = Inr f"
    unfolding f_def st_def sz_def by (rule HashTable_ctor_spec [OF lt l2 len(2)])
  have pow: "sz = 2 ^ floorLog2 (length values * 3)" by (simp add: sz_def tableSize_def)
  have room: "length values < sz"
    using tableSize_room [OF l2] by (simp add: sz_def)
  have "length [] + length values < sz" using room by simp
  from insertAll_inv [OF pow empty_table_inv this, of kE M False]
  have inv: "tableInv kE M sz (fst st) values"
    and cem: "snd st = (kE \<in> set values)"
    and found: "insertsFindSlot kE M sz (replicate sz kE, False) values"
    by (simp_all add: st_def)
  have tlen: "length (fst st) = sz" using inv by (simp add: tableInv_def)
  have pos: "0 < sz" using room by simp
  have ne: "lookupProbe kE (fst st) sz v (hashPosition M sz v) sz \<noteq> Exhausted" for v
    by (rule lookup_not_exhausted [OF pow inv room])
  have test: "testInt64 kE M f v = (v \<in> set values)" for v
  proof (cases "v \<in> set values")
    case True
    then have "\<not> (v <s mn \<or> mx <s v)"
      using bounds by (auto simp: word_sle_eq word_sless_alt)
    then show ?thesis
      using True cem lookup_hit_iff [OF pow inv pos, of v]
      by (auto simp: f_def HashTable_testInt64_def tlen Let_def)
  next
    case False
    then show ?thesis
      using cem lookup_hit_iff [OF pow inv pos, of v]
      by (auto simp: f_def HashTable_testInt64_def tlen Let_def)
  qed
  have "length values < length (hashTable f)" using room by (simp add: f_def tlen)
  moreover have "insertsFindSlot kE M (length (hashTable f))
                 (replicate (length (hashTable f)) kE, False) values"
    using found by (simp add: f_def tlen)
  moreover have "containsEmptyMarker f = (kE \<in> set values)" using cem by (simp add: f_def)
  moreover have "\<forall>v. lookupProbe kE (hashTable f) (length (hashTable f)) v
                      (hashPosition M (length (hashTable f)) v) (length (hashTable f)) \<noteq> Exhausted"
    using ne by (simp add: f_def tlen)
  ultimately show ?thesis using ctor test by blast
qed

theorem hashTable_exact_witness:
  "\<exists>f. BigintValuesUsingHashTable_ctor 0xdeadbeefbadefeed 0xc6a4a7935bd1e995
          0xdeadbeefbadefeed 2000000 [0, 0xdeadbeefbadefeed, 2000000] False = Inr f
       \<and> testInt64 0xdeadbeefbadefeed 0xc6a4a7935bd1e995 f 0
       \<and> testInt64 0xdeadbeefbadefeed 0xc6a4a7935bd1e995 f 0xdeadbeefbadefeed
       \<and> testInt64 0xdeadbeefbadefeed 0xc6a4a7935bd1e995 f 2000000
       \<and> \<not> testInt64 0xdeadbeefbadefeed 0xc6a4a7935bd1e995 f 1
       \<and> containsEmptyMarker f"
proof -
  have h1: "2 \<le> length [0, 0xdeadbeefbadefeed, 2000000 :: int64]"
    and h2: "3 * length [0, 0xdeadbeefbadefeed, 2000000 :: int64] < 2 ^ 31"
    and h3: "(0xdeadbeefbadefeed :: int64) <s 2000000"
    and h4: "\<forall>v\<in>set [0, 0xdeadbeefbadefeed, 2000000 :: int64].
               0xdeadbeefbadefeed <=s v \<and> v <=s 2000000"
    by (simp_all add: word_sle_eq word_sless_alt)
  from hashTable_exact [OF h1 h2 h3 h4, of "0xdeadbeefbadefeed" "0xc6a4a7935bd1e995" False]
  obtain f where f: "BigintValuesUsingHashTable_ctor 0xdeadbeefbadefeed 0xc6a4a7935bd1e995
          0xdeadbeefbadefeed 2000000 [0, 0xdeadbeefbadefeed, 2000000] False = Inr f"
      "containsEmptyMarker f = (0xdeadbeefbadefeed \<in> set [0, 0xdeadbeefbadefeed, 2000000 :: int64])"
      "\<forall>v. testInt64 0xdeadbeefbadefeed 0xc6a4a7935bd1e995 f v =
             (v \<in> set [0, 0xdeadbeefbadefeed, 2000000])"
    by blast
  show ?thesis using f by (intro exI [of _ f]) simp
qed

section \<open>Normalisation of merge results\<close>


























text \<open>
  A hash table built by the constructor from a vector without repetitions holds no value
  twice.
\<close>

lemma HashTable_ctor_noDuplicates:
  assumes c: "BigintValuesUsingHashTable_ctor kE M mn mx vs na = Inr f" and d: "distinct vs"
  shows "noDuplicates kE f"
proof -
  define sz where "sz = tableSize (length vs)"
  define st where "st = insertAll kE M sz (replicate sz kE, False) vs"
  have f: "f = BigintValuesUsingHashTable mn mx (fst st) (snd st) na"
    using c unfolding st_def sz_def
    by (simp add: BigintValuesUsingHashTable_ctor_def Let_def split: if_splits)
  have pow: "sz = 2 ^ floorLog2 (length vs * 3)" by (simp add: sz_def tableSize_def)
  have "1 < length vs"
    using c by (auto simp: BigintValuesUsingHashTable_ctor_def split: if_splits)
  then have "length vs < sz" unfolding sz_def by (rule tableSize_room)
  then have "length [] + length vs < sz" by simp
  from insertAll_inv [OF pow empty_table_inv this, of kE M False]
  have "tableInv kE M sz (fst st) vs" by (simp add: st_def)
  then show ?thesis using d by (simp add: tableInv_def noDuplicates_def f)
qed




section \<open>The merge of a value set with touching ranges\<close>

text \<open>
  Claim C1 fails on the code. The bitmask of \<open>{1, 3, 5, 9}\<close> (as \<open>createBigintValues\<close> builds
  it) merged with the BigintMultiRange of \<open>[1, 3]\<close> and \<open>[3, 4]\<close> (which the constructor's
  check \<open>lowerBounds_[i] >= ranges_[i - 1]->upper()\<close> accepts) keeps the value 3 once for each
  range; \<open>createBigintValues\<close> on \<open>[1, 3, 3]\<close> finds \<open>range + 1 = size\<close> and returns
  \<open>BigintRange(1, 3)\<close>, which accepts 2, a value the bitmask rejects.
\<close>

theorem mergeWith_touching_ranges:
  "createBigintValues 0xdeadbeefbadefeed 0xc6a4a7935bd1e995 [1, 3, 5, 9] False =
     Inr (BigintValuesUsingBitmask 1 9 [True, False, True, False, True, False, False, False, True] False)
   \<and> BigintMultiRange_ctor [BRange 1 3 False, BRange 3 4 False] False =
     Inr (BigintMultiRange [BRange 1 3 False, BRange 3 4 False] [1, 3] False)
   \<and> mergeWith 0xdeadbeefbadefeed 0xc6a4a7935bd1e995
       (BigintValuesUsingBitmask 1 9 [True, False, True, False, True, False, False, False, True] False)
       (BigintMultiRange [BRange 1 3 False, BRange 3 4 False] [1, 3] False) =
     Inr (BigintRange (BRange 1 3 False))
   \<and> testInt64 0xdeadbeefbadefeed 0xc6a4a7935bd1e995 (BigintRange (BRange 1 3 False)) 2
   \<and> \<not> testInt64 0xdeadbeefbadefeed 0xc6a4a7935bd1e995
       (BigintValuesUsingBitmask 1 9 [True, False, True, False, True, False, False, False, True] False) 2"
proof -
  have r: "replicate 9 False = [False, False, False, False, False, False, False, False, False]"
    by (simp add: numeral_eq_Suc)
  show ?thesis
    by (simp add: createBigintValues_def sub_overflow_def BigintValuesUsingBitmask_ctor_def r
        BigintMultiRange_ctor_def upt_rec word_sle_eq word_sless_alt
        mergeWith_def Bitmask_mergeWith_def smax_def smin_def keepLoop.simps
        BigintRange_testInt64_def Bitmask_testInt64_def)
qed

section \<open>The hash table beyond its 32-bit size\<close>

text \<open>
  The claim as stated for every vector fails on a very long one: for the 1431655766
  distinct values \<open>0, 1, ..., 1431655765\<close>, with their extremes as \<open>min\<close> and \<open>max\<close>,
  \<open>values.size() * 3\<close> is \<open>2^32 + 2\<close> and \<open>1u << 32\<close> shifts an \<open>unsigned int\<close> by its
  width: no table larger than the vector is built.
\<close>

lemma sint_of_nat64: "k < 2 ^ 63 \<Longrightarrow> sint (of_nat k :: 64 word) = int k"
proof -
  assume k: "k < 2 ^ 63"
  have le: "(0 :: 64 word) <=s 0x7FFFFFFFFFFFFFFF" by (simp add: word_sle_eq)
  have "int k \<le> sint (0x7FFFFFFFFFFFFFFF :: 64 word) - sint (0 :: 64 word)" using k by simp
  from interval_point [OF le this] show ?thesis by simp
qed

lemma firstNaturals_props:
  assumes n: "0 < n" "n < 2 ^ 63"
  shows "length (firstNaturals n) = n"
    and "distinct (firstNaturals n)"
    and "0 \<in> set (firstNaturals n)"
    and "of_nat (n - 1) \<in> set (firstNaturals n)"
    and "list_all (\<lambda>v. 0 <=s v \<and> v <=s of_nat (n - 1)) (firstNaturals n)"
proof -
  show "length (firstNaturals n) = n" by (simp add: firstNaturals_def)
  have inj: "inj_on (of_nat :: nat \<Rightarrow> int64) {0..<n}"
  proof (rule inj_onI)
    fix a b :: nat
    assume a: "a \<in> {0..<n}" and b: "b \<in> {0..<n}" and e: "(of_nat a :: int64) = of_nat b"
    have "a < n" "b < n" using a b by simp_all
    then have "a < 2 ^ 64" "b < 2 ^ 64" using n(2) by simp_all
    then have ua: "unat (of_nat a :: int64) = a" and ub: "unat (of_nat b :: int64) = b"
      by (simp_all only: unat_of_nat64)
    from e have "unat (of_nat a :: int64) = unat (of_nat b :: int64)" by (rule arg_cong)
    then show "a = b" by (simp only: ua ub)
  qed
  then show "distinct (firstNaturals n)" by (simp add: firstNaturals_def distinct_map)
  have "of_nat 0 \<in> (of_nat :: nat \<Rightarrow> int64) ` {0..<n}" using n(1) by (intro imageI) simp
  then show "0 \<in> set (firstNaturals n)" by (simp add: firstNaturals_def)
  have "of_nat (n - 1) \<in> (of_nat :: nat \<Rightarrow> int64) ` {0..<n}" using n(1) by (intro imageI) simp
  then show "of_nat (n - 1) \<in> set (firstNaturals n)" by (simp add: firstNaturals_def)
  show "list_all (\<lambda>v. 0 <=s v \<and> v <=s of_nat (n - 1)) (firstNaturals n)"
    unfolding list_all_iff
  proof
    fix v :: int64 assume "v \<in> set (firstNaturals n)"
    then obtain k where k: "k < n" "v = of_nat k" by (auto simp: firstNaturals_def)
    have "sint v = int k" using k n(2) by (simp add: sint_of_nat64)
    moreover have "sint (of_nat (n - 1) :: int64) = int (n - 1)" using n(2) by (simp add: sint_of_nat64)
    ultimately show "0 <=s v \<and> v <=s of_nat (n - 1)" using k(1) by (simp add: word_sle_eq)
  qed
qed

theorem hashTable_exact_counterexample:
  "distinct (firstNaturals 1431655766)
   \<and> length (firstNaturals 1431655766) = 1431655766
   \<and> (0 :: int64) <s 1431655765
   \<and> 0 \<in> set (firstNaturals 1431655766)
   \<and> 1431655765 \<in> set (firstNaturals 1431655766)
   \<and> list_all (\<lambda>v. 0 <=s v \<and> v <=s 1431655765) (firstNaturals 1431655766)
   \<and> BigintValuesUsingHashTable_ctor 0xdeadbeefbadefeed 0xc6a4a7935bd1e995 0 1431655765
         (firstNaturals 1431655766) False = Inl (Undefined ''table size'')"
proof -
  have n: "0 < (1431655766 :: nat)" "(1431655766 :: nat) < 2 ^ 63" by simp_all
  note p = firstNaturals_props [OF n]
  have e: "(of_nat (1431655766 - 1) :: int64) = 1431655765" by simp
  have lt: "(0 :: int64) <s 1431655765" by (simp add: word_sless_alt)
  have fl: "31 \<le> floorLog2 (1431655766 * 3)" by (simp add: floorLog2.simps)
  have c: "BigintValuesUsingHashTable_ctor 0xdeadbeefbadefeed 0xc6a4a7935bd1e995 0 1431655765
         (firstNaturals 1431655766) False = Inl (Undefined ''table size'')"
    using lt fl by (simp add: BigintValuesUsingHashTable_ctor_def p(1))
  show ?thesis using p(1,2,3) p(4,5) [unfolded e] lt c by blast
qed

end
